theory Spec2Isabelle
  imports Complex_Main "HOL-Library.AList"
begin

section \<open>Placement-common core of nextpnr: common/place_common.cc\<close>

text \<open>
  A shallow embedding of \<^verbatim>\<open>common/place_common.cc\<close>: the wirelength metric, the
  single-cell placer with ripup and the legaliser of relative constraints.

  Conventions.
  \<^item> C++ \<^verbatim>\<open>int\<close> coordinates, offsets and diameters are HOL integers: grid coordinates
    are far from the 32-bit bounds, so no wrap-around is written out.
  \<^item> \<^verbatim>\<open>IdString\<close> and \<^verbatim>\<open>BelId\<close> are indices (natural numbers); the null
    \<^verbatim>\<open>BelId()\<close>, a null pointer and the empty \<^verbatim>\<open>IdString()\<close> are \<open>None\<close>.
  \<^item> A \<^verbatim>\<open>CellInfo *\<close> is the name of the cell; its mutable fields live in the
    \<open>cells\<close> store of the context.
  \<^item> \<^verbatim>\<open>log_error\<close>, a failed \<^verbatim>\<open>NPNR_ASSERT\<close> and a failed \<^verbatim>\<open>.at()\<close> abort the
    run; they are the \<open>Inl\<close> results, which carry the context at the abort.
\<close>

subsection \<open>The increasing-diameter axis search\<close>

record IncreasingDiameterSearch =
  ids_start :: int
  ids_min :: int
  ids_max :: int
  ids_diameter :: int
  ids_sign :: int

text \<open>The three constructors; \<^verbatim>\<open>diameter\<close> and \<^verbatim>\<open>sign\<close> are initialised to 0.\<close>

definition ids_default :: IncreasingDiameterSearch where
  "ids_default = \<lparr>ids_start = 0, ids_min = 0, ids_max = - 1, ids_diameter = 0, ids_sign = 0\<rparr>"

definition ids_fixed :: "int \<Rightarrow> IncreasingDiameterSearch" where
  "ids_fixed v = \<lparr>ids_start = v, ids_min = v, ids_max = v, ids_diameter = 0, ids_sign = 0\<rparr>"

definition ids_range :: "int \<Rightarrow> int \<Rightarrow> int \<Rightarrow> IncreasingDiameterSearch" where
  "ids_range s lo hi = \<lparr>ids_start = s, ids_min = lo, ids_max = hi, ids_diameter = 0, ids_sign = 0\<rparr>"

definition ids_done :: "IncreasingDiameterSearch \<Rightarrow> bool" where
  "ids_done s \<longleftrightarrow> ids_diameter s > ids_max s - ids_min s"

definition ids_get :: "IncreasingDiameterSearch \<Rightarrow> int" where
  "ids_get s =
     (let val = ids_start s + ids_sign s * ids_diameter s;
          val = max val (ids_min s);
          val = min val (ids_max s)
      in val)"

definition ids_next :: "IncreasingDiameterSearch \<Rightarrow> IncreasingDiameterSearch" where
  "ids_next s =
     (if ids_sign s = 0 then s\<lparr>ids_sign := 1, ids_diameter := 1\<rparr>
      else if ids_sign s = - 1 then
        (if ids_start s + 1 * ids_diameter s > ids_max s
         then s\<lparr>ids_sign := - 1, ids_diameter := ids_diameter s + 1\<rparr>
         else s\<lparr>ids_sign := 1, ids_diameter := ids_diameter s + 1\<rparr>)
      else
        (if ids_start s + (- 1) * ids_diameter s < ids_min s
         then s\<lparr>ids_sign := 1, ids_diameter := ids_diameter s + 1\<rparr>
         else s\<lparr>ids_sign := - 1\<rparr>))"

definition ids_reset :: "IncreasingDiameterSearch \<Rightarrow> IncreasingDiameterSearch" where
  "ids_reset s = s\<lparr>ids_sign := 0, ids_diameter := 0\<rparr>"

text \<open>
  The termination measure of one axis: twice the number of diameters still to come, plus
  one while the positive side of the current diameter is the one being shown; the state
  after \<^verbatim>\<open>reset()\<close> (sign 0) lies above every state that follows it.
\<close>

definition ids_measure :: "IncreasingDiameterSearch \<Rightarrow> nat" where
  "ids_measure s =
     (if ids_sign s = 0 then 2 * nat (ids_max s - ids_min s) + 2
      else 2 * nat (ids_max s - ids_min s + 1 - ids_diameter s)
           + (if ids_sign s = - 1 then 0 else 1))"

lemma ids_next_measure:
  "\<not> ids_done s \<Longrightarrow> ids_measure (ids_next s) < ids_measure s"
  by (auto simp: ids_done_def ids_next_def ids_measure_def)

text \<open>
  The values of \<^verbatim>\<open>get()\<close> seen by the loop
  \<^verbatim>\<open>while (!s.done()) { v = s.get(); s.next(); }\<close>.
\<close>

function ids_run :: "IncreasingDiameterSearch \<Rightarrow> int list" where
  "ids_run s = (if ids_done s then [] else ids_get s # ids_run (ids_next s))"
  by pat_completeness auto
termination
  by (relation "measure ids_measure") (auto simp: ids_next_measure)

declare ids_run.simps [simp del]

subsection \<open>Netlist, device and context\<close>

type_synonym IdString = nat
type_synonym BelId = nat
type_synonym BelType = nat
type_synonym delay_t = int
type_synonym wirelen_t = int

datatype PlaceStrength = STRENGTH_NONE | STRENGTH_WEAK | STRENGTH_STRONG | STRENGTH_LOCKED

text \<open>
  Modelled from the spec: the enumerators of \<^verbatim>\<open>PlaceStrength\<close> are declared in a header
  that is not part of this file. The spec gives the total order NONE < WEAK < STRONG <
  LOCKED on integers; \<open>strength_val\<close> numbers them from 0 in that order, as an enum
  without initialisers does.
\<close>

fun strength_val :: "PlaceStrength \<Rightarrow> int" where
  "strength_val STRENGTH_NONE = 0"
| "strength_val STRENGTH_WEAK = 1"
| "strength_val STRENGTH_STRONG = 2"
| "strength_val STRENGTH_LOCKED = 3"

text \<open>The implicit conversion of an enumerator passed where a \<^verbatim>\<open>bool\<close> is expected.\<close>

definition bool_of_strength :: "PlaceStrength \<Rightarrow> bool" where
  "bool_of_strength s \<longleftrightarrow> strength_val s \<noteq> 0"

record Loc =
  loc_x :: int
  loc_y :: int
  loc_z :: int

text \<open>
  \<^verbatim>\<open>constr_children\<close> is a vector of pointers to cells whose own \<^verbatim>\<open>constr_children\<close>
  point further down. The parent relation is a forest, so what hangs below a cell is a
  finite tree of cell names.
\<close>

datatype chain = Chain IdString "chain list"

record PortRef =
  pr_cell :: "IdString option"
  pr_budget :: delay_t

record NetInfo =
  net_driver :: PortRef
  net_users :: "PortRef list"

text \<open>
  A cell. \<open>ports\<close> maps a port name to the name of the net it is connected to, if any.
  A constraint field is \<open>None\<close> where the source holds the sentinel \<^verbatim>\<open>UNCONSTR\<close>.
\<close>

record CellInfo =
  cell_type :: IdString
  bel :: "BelId option"
  belStrength :: PlaceStrength
  ports :: "(IdString \<times> IdString option) list"
  constr_parent :: "IdString option"
  constr_children :: "chain list"
  constr_x :: "int option"
  constr_y :: "int option"
  constr_z :: "int option"
  constr_abs_z :: bool

text \<open>
  \<open>trace\<close> is a ghost field: nothing reads it. It records, in order, each unbinding of a
  cell with the strength the cell had and whether the cell is the one that the caller is
  moving (\<open>OwnCell\<close>) or any other cell (\<open>Ripup\<close>), each pass of the outer loop of
  \<^verbatim>\<open>place_single_cell\<close> with its number, and each candidate cost: the number of the
  pass, the metric of the cell at the bel, the value that the generator handed out while
  the cost was computed, if it was asked, and the cost that came back.
\<close>

datatype unbind_site = OwnCell | Ripup

datatype event =
  EvUnbind unbind_site IdString PlaceStrength
| EvPass nat
| EvCandidate nat wirelen_t "nat option" wirelen_t

record Context =
  cells :: "(IdString \<times> CellInfo) list"
  nets :: "(IdString \<times> NetInfo) list"
  bel_to_cell :: "BelId \<Rightarrow> IdString option"
  rng_pos :: nat
  trace :: "event list"

text \<open>
  The device database and the settings of the context are declared outside this file; they
  are parameters. \<open>nullBelLocation\<close> is what \<^verbatim>\<open>getBelLocation\<close> answers for the null
  \<^verbatim>\<open>BelId()\<close>: a location, or \<open>None\<close> if the device stops with an assertion.
  \<open>rng_stream\<close> is the sequence of raw values behind \<^verbatim>\<open>ctx->rng\<close>; \<open>delay_max\<close> and
  \<open>wirelen_max\<close> are \<^verbatim>\<open>std::numeric_limits<T>::max()\<close> of the two typedefs.
\<close>

record Arch =
  getBels :: "BelId list"
  getBelType :: "BelId \<Rightarrow> BelType"
  belTypeFromId :: "IdString \<Rightarrow> BelType"
  getBelLocation :: "BelId \<Rightarrow> Loc"
  nullBelLocation :: "Loc option"
  getBelByLocation :: "Loc \<Rightarrow> BelId option"
  getGridDimX :: int
  getGridDimY :: int
  getTileDimZ :: "int \<Rightarrow> int \<Rightarrow> int"
  getBelGlobalBuf :: "BelId \<Rightarrow> bool"
  isValidBelForCell :: "Context \<Rightarrow> IdString \<Rightarrow> BelId \<Rightarrow> bool"
  predictDelay :: "Context \<Rightarrow> NetInfo \<Rightarrow> PortRef \<Rightarrow> delay_t"
  getDelayNS :: "delay_t \<Rightarrow> real"
  delay_max :: delay_t
  wirelen_max :: wirelen_t
  rng_stream :: "nat \<Rightarrow> nat"
  timing_driven :: bool

datatype error =
  RipupLimitExceeded IdString
| FailedToPlace IdString
| FailedToPlaceChain IdString
| FailedAfterLegalisation IdString
| AssertionFailed
| OutOfRange
| BadPointer

type_synonym 'a result = "(error \<times> Context) + 'a"

definition log_event :: "event \<Rightarrow> Context \<Rightarrow> Context" where
  "log_event e ctx = ctx\<lparr>trace := trace ctx @ [e]\<rparr>"

text \<open>Reading fields through a cell pointer; a name outside the store reads as unplaced.\<close>

definition cell_bel :: "Context \<Rightarrow> IdString \<Rightarrow> BelId option" where
  "cell_bel ctx c = (case map_of (cells ctx) c of None \<Rightarrow> None | Some ci \<Rightarrow> bel ci)"

definition cell_strength :: "Context \<Rightarrow> IdString \<Rightarrow> PlaceStrength" where
  "cell_strength ctx c =
     (case map_of (cells ctx) c of None \<Rightarrow> STRENGTH_NONE | Some ci \<Rightarrow> belStrength ci)"

definition set_cell_bel :: "IdString \<Rightarrow> BelId option \<Rightarrow> Context \<Rightarrow> Context" where
  "set_cell_bel c b ctx = ctx\<lparr>cells := AList.map_entry c (\<lambda>ci. ci\<lparr>bel := b\<rparr>) (cells ctx)\<rparr>"

definition set_cell_strength :: "IdString \<Rightarrow> PlaceStrength \<Rightarrow> Context \<Rightarrow> Context" where
  "set_cell_strength c s ctx =
     ctx\<lparr>cells := AList.map_entry c (\<lambda>ci. ci\<lparr>belStrength := s\<rparr>) (cells ctx)\<rparr>"

text \<open>
  Modelled from the spec: the placement map of the device context (\<^verbatim>\<open>checkBelAvail\<close>,
  \<^verbatim>\<open>getBoundBelCell\<close>, \<^verbatim>\<open>getConflictingBelCell\<close>, \<^verbatim>\<open>bindBel\<close>, \<^verbatim>\<open>unbindBel\<close>) is
  implemented outside this file. It is a map keyed by bel; binding stores the cell under
  the bel and sets the cell's bel and strength, binding an occupied bel is an assertion
  failure, and unbinding removes the entry and leaves the cell unplaced with strength
  NONE. A bel may be unbound only if the strength of the cell bound to it is strictly
  less than LOCKED: unbinding a LOCKED cell is an assertion failure. The call is recorded
  in the trace, with the strength of the cell, before that assertion. For the trace
  alone, \<open>unbindBel\<close> takes the cell that the caller is moving: \<open>Some c\<close> where the
  call frees the bel of \<open>c\<close> itself (lines 116 and 348), \<open>None\<close> where it frees a bel
  for another cell (lines 153 and 363).
\<close>

definition checkBelAvail :: "Context \<Rightarrow> BelId \<Rightarrow> bool" where
  "checkBelAvail ctx b \<longleftrightarrow> bel_to_cell ctx b = None"

definition getBoundBelCell :: "Context \<Rightarrow> BelId \<Rightarrow> IdString option" where
  "getBoundBelCell ctx b = bel_to_cell ctx b"

definition getConflictingBelCell :: "Context \<Rightarrow> BelId \<Rightarrow> IdString option" where
  "getConflictingBelCell ctx b = bel_to_cell ctx b"

definition unbindBel :: "IdString option \<Rightarrow> BelId \<Rightarrow> Context \<Rightarrow> Context result" where
  "unbindBel mover b ctx =
     (case bel_to_cell ctx b of
        None \<Rightarrow> Inr ctx
      | Some c \<Rightarrow>
          (let ctx1 = log_event
                 (EvUnbind (if mover = Some c then OwnCell else Ripup) c (cell_strength ctx c)) ctx
           in if \<not> strength_val (cell_strength ctx c) < strength_val STRENGTH_LOCKED
              then Inl (AssertionFailed, ctx1)
              else
                Inr (ctx1\<lparr>cells :=
                            AList.map_entry c (\<lambda>ci. ci\<lparr>bel := None, belStrength := STRENGTH_NONE\<rparr>)
                              (cells ctx1),
                          bel_to_cell := (bel_to_cell ctx1)(b := None)\<rparr>)))"

definition bindBel :: "BelId \<Rightarrow> IdString \<Rightarrow> PlaceStrength \<Rightarrow> Context \<Rightarrow> Context result" where
  "bindBel b c s ctx =
     (if bel_to_cell ctx b \<noteq> None then Inl (AssertionFailed, ctx)
      else if map_of (cells ctx) c = None then Inl (OutOfRange, ctx)
      else Inr (ctx\<lparr>cells := AList.map_entry c (\<lambda>ci. ci\<lparr>bel := Some b, belStrength := s\<rparr>) (cells ctx),
                    bel_to_cell := (bel_to_cell ctx)(b \<mapsto> c)\<rparr>))"

text \<open>
  Modelled from the spec: \<^verbatim>\<open>ctx->rng(n)\<close> is implemented outside this file; it returns
  an integer in [0, n) and advances the generator.
\<close>

definition rng :: "Arch \<Rightarrow> nat \<Rightarrow> Context \<Rightarrow> nat \<times> Context" where
  "rng a n ctx = (rng_stream a (rng_pos ctx) mod n, ctx\<lparr>rng_pos := Suc (rng_pos ctx)\<rparr>)"

subsection \<open>The wirelength metric\<close>

datatype MetricType = WIRELENGTH | COST

text \<open>
  The factor of line 70. The source computes it in floating point; here it is a real
  number, with \<^verbatim>\<open>std::exp\<close> the exponential function.
\<close>

definition timing_factor :: "Arch \<Rightarrow> delay_t \<Rightarrow> real" where
  timing_factor_def [code del]:
  "timing_factor a worst_slack = min 5 (1 + exp (- getDelayNS a worst_slack / 5))"

text \<open>The conversion \<^verbatim>\<open>wirelen_t(...)\<close> of a floating-point value truncates towards zero.\<close>

definition wirelen_of_real :: "real \<Rightarrow> wirelen_t" where
  "wirelen_of_real r = (if 0 \<le> r then \<lfloor>r\<rfloor> else \<lceil>r\<rceil>)"

record net_acc =
  negative_slack :: delay_t
  worst_slack :: delay_t
  xmin :: int
  xmax :: int
  ymin :: int
  ymax :: int

text \<open>The body of the loop over the users of a net (lines 45 to 67).\<close>

definition net_user :: "Arch \<Rightarrow> Context \<Rightarrow> NetInfo \<Rightarrow> MetricType \<Rightarrow> PortRef \<Rightarrow> net_acc \<Rightarrow> net_acc" where
  "net_user a ctx net ty load acc =
     (case pr_cell load of
        None \<Rightarrow> acc
      | Some load_cell \<Rightarrow>
         (case cell_bel ctx load_cell of
            None \<Rightarrow> acc
          | Some lb \<Rightarrow>
             (let acc1 =
                (if timing_driven a \<and> ty = COST then
                   (let net_delay = predictDelay a ctx net load;
                        slack = pr_budget load - net_delay
                    in acc\<lparr>negative_slack :=
                             (if slack < 0 then negative_slack acc + slack else negative_slack acc),
                           worst_slack := min slack (worst_slack acc)\<rparr>)
                 else acc)
              in if getBelGlobalBuf a lb then acc1
                 else (let load_loc = getBelLocation a lb
                       in acc1\<lparr>xmin := min (xmin acc1) (loc_x load_loc),
                               ymin := min (ymin acc1) (loc_y load_loc),
                               xmax := max (xmax acc1) (loc_x load_loc),
                               ymax := max (ymax acc1) (loc_y load_loc)\<rparr>))))"

text \<open>
  \<^verbatim>\<open>get_net_metric\<close> returns the wirelength and the updated \<^verbatim>\<open>tns\<close> (a reference
  parameter in the source; it is left alone on the three early returns).
\<close>

definition get_net_metric :: "Arch \<Rightarrow> Context \<Rightarrow> NetInfo \<Rightarrow> MetricType \<Rightarrow> real \<Rightarrow> wirelen_t \<times> real" where
  "get_net_metric a ctx net ty tns =
     (case pr_cell (net_driver net) of
        None \<Rightarrow> (0, tns)
      | Some driver_cell \<Rightarrow>
         (case cell_bel ctx driver_cell of
            None \<Rightarrow> (0, tns)
          | Some db \<Rightarrow>
             if getBelGlobalBuf a db then (0, tns)
             else
               (let driver_loc = getBelLocation a db;
                    acc0 = \<lparr>negative_slack = 0, worst_slack = delay_max a,
                            xmin = loc_x driver_loc, xmax = loc_x driver_loc,
                            ymin = loc_y driver_loc, ymax = loc_y driver_loc\<rparr>;
                    acc = fold (net_user a ctx net ty) (net_users net) acc0;
                    hpwl = (ymax acc - ymin acc) + (xmax acc - xmin acc);
                    wirelength =
                      (if timing_driven a \<and> ty = COST
                       then wirelen_of_real (real_of_int hpwl * timing_factor a (worst_slack acc))
                       else hpwl)
                in (wirelength, tns + getDelayNS a (negative_slack acc)))))"

text \<open>
  \<^verbatim>\<open>get_cell_metric\<close>: the nets of the cell's ports, as the ordered set of their names,
  each looked up with \<^verbatim>\<open>ctx->nets.at\<close>.
\<close>

fun sum_net_metrics :: "Arch \<Rightarrow> Context \<Rightarrow> MetricType \<Rightarrow> IdString list \<Rightarrow> wirelen_t \<Rightarrow> real \<Rightarrow> error + wirelen_t" where
  "sum_net_metrics a ctx ty [] wirelength tns = Inr wirelength"
| "sum_net_metrics a ctx ty (n # ns) wirelength tns =
     (case map_of (nets ctx) n of
        None \<Rightarrow> Inl OutOfRange
      | Some net \<Rightarrow>
          (let (w, tns') = get_net_metric a ctx net ty tns
           in sum_net_metrics a ctx ty ns (wirelength + w) tns'))"

definition get_cell_metric :: "Arch \<Rightarrow> Context \<Rightarrow> IdString \<Rightarrow> MetricType \<Rightarrow> error + wirelen_t" where
  "get_cell_metric a ctx c ty =
     (case map_of (cells ctx) c of
        None \<Rightarrow> Inl BadPointer
      | Some ci \<Rightarrow>
          sum_net_metrics a ctx ty (sort (remdups (List.map_filter snd (ports ci)))) 0 0)"

text \<open>
  \<^verbatim>\<open>get_cell_metric_at_bel\<close> writes the field \<^verbatim>\<open>cell->bel\<close>, evaluates, and writes the
  old value back: the context it returns to is the one it was given.
\<close>

definition get_cell_metric_at_bel :: "Arch \<Rightarrow> Context \<Rightarrow> IdString \<Rightarrow> BelId \<Rightarrow> MetricType \<Rightarrow> error + wirelen_t" where
  "get_cell_metric_at_bel a ctx c b ty = get_cell_metric a (set_cell_bel c (Some b) ctx) c ty"

subsection \<open>Placing a single cell\<close>

text \<open>The locals of one pass of the outer loop, as declared at lines 110 to 114.\<close>

record scan =
  best_bel :: "BelId option"
  best_wirelen :: wirelen_t
  best_ripup_wirelen :: wirelen_t
  ripup_target :: "IdString option"
  ripup_bel :: "BelId option"

definition scan_init :: "Arch \<Rightarrow> scan" where
  "scan_init a =
     \<lparr>best_bel = None, best_wirelen = wirelen_max a, best_ripup_wirelen = wirelen_max a,
      ripup_target = None, ripup_bel = None\<rparr>"

text \<open>
  The cost of a candidate bel (lines 122 to 124 and 130 to 132): the metric of the cell at
  the bel, plus \<^verbatim>\<open>ctx->rng(25)\<close> when \<^verbatim>\<open>iters >= 4\<close>.
\<close>

definition candidate_cost :: "Arch \<Rightarrow> nat \<Rightarrow> IdString \<Rightarrow> BelId \<Rightarrow> Context \<Rightarrow> (wirelen_t \<times> Context) result" where
  "candidate_cost a iters c b ctx =
     (case get_cell_metric_at_bel a ctx c b COST of
        Inl e \<Rightarrow> Inl (e, ctx)
      | Inr wirelen \<Rightarrow>
          if iters \<ge> 4 then
            (let (r, ctx') = rng a 25 ctx
             in Inr (wirelen + int r, ctx'))
          else Inr (wirelen, ctx))"

text \<open>
  The same with its ghost record: what is written to the trace is read off the call, the
  metric from \<^verbatim>\<open>get_cell_metric_at_bel\<close>, the jitter from the generator if its position
  has moved, and the cost from the value that \<open>candidate_cost\<close> returned.
\<close>

definition logged_cost :: "Arch \<Rightarrow> nat \<Rightarrow> nat \<Rightarrow> IdString \<Rightarrow> BelId \<Rightarrow> Context \<Rightarrow> (wirelen_t \<times> Context) result" where
  "logged_cost a iters pass c b ctx =
     (case candidate_cost a iters c b ctx of
        Inl e \<Rightarrow> Inl e
      | Inr (w, ctx') \<Rightarrow>
          Inr (w, log_event
                    (EvCandidate pass
                       (case get_cell_metric_at_bel a ctx c b COST of Inl e \<Rightarrow> 0 | Inr m \<Rightarrow> m)
                       (if rng_pos ctx' = rng_pos ctx then None else Some (fst (rng a 25 ctx)))
                       w)
                    ctx'))"

text \<open>
  The body of the loop over the bels (lines 120 to 142); \<open>pass\<close> is the ghost number of
  the current pass.
\<close>

definition scan_bel :: "Arch \<Rightarrow> bool \<Rightarrow> nat \<Rightarrow> nat \<Rightarrow> IdString \<Rightarrow> BelType \<Rightarrow> BelId \<Rightarrow> scan \<Rightarrow> Context \<Rightarrow> (scan \<times> Context) result" where
  "scan_bel a require_legality iters pass c targetType b sc ctx =
     (if getBelType a b = targetType \<and> (\<not> require_legality \<or> isValidBelForCell a ctx c b) then
        if checkBelAvail ctx b then
          (case logged_cost a iters pass c b ctx of
             Inl e \<Rightarrow> Inl e
           | Inr (wirelen, ctx') \<Rightarrow>
               if wirelen \<le> best_wirelen sc
               then Inr (sc\<lparr>best_wirelen := wirelen, best_bel := Some b\<rparr>, ctx')
               else Inr (sc, ctx'))
        else
          (case logged_cost a iters pass c b ctx of
             Inl e \<Rightarrow> Inl e
           | Inr (wirelen, ctx') \<Rightarrow>
               if wirelen \<le> best_ripup_wirelen sc then
                 (case getBoundBelCell ctx' b of
                    None \<Rightarrow> Inl (OutOfRange, ctx')
                  | Some curr_cell \<Rightarrow>
                      (case map_of (cells ctx') curr_cell of
                         None \<Rightarrow> Inl (OutOfRange, ctx')
                       | Some ci \<Rightarrow>
                           if strength_val (belStrength ci) < strength_val STRENGTH_STRONG
                           then Inr (sc\<lparr>best_ripup_wirelen := wirelen, ripup_bel := Some b,
                                        ripup_target := Some curr_cell\<rparr>, ctx')
                           else Inr (sc, ctx')))
               else Inr (sc, ctx'))
      else Inr (sc, ctx))"

fun scan_bels :: "Arch \<Rightarrow> bool \<Rightarrow> nat \<Rightarrow> nat \<Rightarrow> IdString \<Rightarrow> BelType \<Rightarrow> BelId list \<Rightarrow> scan \<Rightarrow> Context \<Rightarrow> (scan \<times> Context) result" where
  "scan_bels a require_legality iters pass c targetType [] sc ctx = Inr (sc, ctx)"
| "scan_bels a require_legality iters pass c targetType (b # bs) sc ctx =
     (case scan_bel a require_legality iters pass c targetType b sc ctx of
        Inl e \<Rightarrow> Inl e
      | Inr (sc', ctx') \<Rightarrow> scan_bels a require_legality iters pass c targetType bs sc' ctx')"

text \<open>Lines 115 to 143: unbind the cell if it is placed, then scan the bels.\<close>

definition unbind_own :: "IdString \<Rightarrow> Context \<Rightarrow> Context result" where
  "unbind_own c ctx = (case cell_bel ctx c of None \<Rightarrow> Inr ctx | Some b \<Rightarrow> unbindBel (Some c) b ctx)"

definition place_scan :: "Arch \<Rightarrow> bool \<Rightarrow> nat \<Rightarrow> nat \<Rightarrow> IdString \<Rightarrow> Context \<Rightarrow> (scan \<times> Context) result" where
  "place_scan a require_legality iters pass c ctx =
     (case map_of (cells ctx) c of
        None \<Rightarrow> Inl (BadPointer, ctx)
      | Some ci \<Rightarrow>
          (case unbind_own c ctx of
             Inl e \<Rightarrow> Inl e
           | Inr ctx1 \<Rightarrow>
               (let targetType = belTypeFromId a (cell_type ci)
                in scan_bels a require_legality iters pass c targetType (getBels a) (scan_init a) ctx1)))"

text \<open>
  The outer loop (lines 109 to 161). \<open>iters\<close> starts at 25 and is decremented only
  after the test \<^verbatim>\<open>iters == 0\<close> has failed, so it is a natural number. \<open>pass\<close> is
  ghost: the number of the pass, from 1. Line 153 passes \<^verbatim>\<open>ripup_target->bel\<close> to
  \<^verbatim>\<open>unbindBel\<close>; a null bel there breaks the contract of the device.
\<close>

function place_loop :: "Arch \<Rightarrow> bool \<Rightarrow> nat \<Rightarrow> nat \<Rightarrow> IdString \<Rightarrow> Context \<Rightarrow> (bool \<times> Context) result" where
  "place_loop a require_legality iters pass c ctx =
     (case place_scan a require_legality iters pass c (log_event (EvPass pass) ctx) of
        Inl e \<Rightarrow> Inl e
      | Inr (sc, ctx1) \<Rightarrow>
         (case best_bel sc of
            Some bb \<Rightarrow>
              (case bindBel bb c STRENGTH_WEAK ctx1 of
                 Inl e \<Rightarrow> Inl e
               | Inr ctx2 \<Rightarrow> Inr (True, ctx2))
          | None \<Rightarrow>
              if iters = 0 then Inl (RipupLimitExceeded c, ctx1)
              else
                (case ripup_bel sc of
                   None \<Rightarrow> Inl (FailedToPlace c, ctx1)
                 | Some rb \<Rightarrow>
                    (case ripup_target sc of
                       None \<Rightarrow> Inl (BadPointer, ctx1)
                     | Some t \<Rightarrow>
                        (case cell_bel ctx1 t of
                           None \<Rightarrow> Inl (AssertionFailed, ctx1)
                         | Some tb \<Rightarrow>
                            (case unbindBel None tb ctx1 of
                               Inl e \<Rightarrow> Inl e
                             | Inr ctxu \<Rightarrow>
                                (case bindBel rb c STRENGTH_WEAK ctxu of
                                   Inl e \<Rightarrow> Inl e
                                 | Inr ctx2 \<Rightarrow>
                                     place_loop a require_legality (iters - 1) (Suc pass) t ctx2)))))))"
  by pat_completeness auto
termination
  by (relation "measure (\<lambda>(a, require_legality, iters, pass, c, ctx). iters)") auto

declare place_loop.simps [simp del]

definition place_single_cell :: "Arch \<Rightarrow> Context \<Rightarrow> IdString \<Rightarrow> bool \<Rightarrow> (bool \<times> Context) result" where
  "place_single_cell a ctx c require_legality = place_loop a require_legality 25 1 c ctx"

subsection \<open>Constraint distance\<close>

definition axis_dist :: "int option \<Rightarrow> int \<Rightarrow> int" where
  "axis_dist constr v = (case constr of None \<Rightarrow> 0 | Some k \<Rightarrow> \<bar>k - v\<bar>)"

text \<open>
  \<^verbatim>\<open>get_constraints_distance\<close> of the cell at the root of the tree. The fields of the
  cell and of its parent are read from the store.
\<close>

fun get_constraints_distance :: "Arch \<Rightarrow> Context \<Rightarrow> chain \<Rightarrow> int" where
  "get_constraints_distance a ctx (Chain c children) =
     (case map_of (cells ctx) c of
        None \<Rightarrow> 100000
      | Some ci \<Rightarrow>
         (case bel ci of
            None \<Rightarrow> 100000
          | Some b \<Rightarrow>
             (let loc = getBelLocation a b in
              case constr_parent ci of
                None \<Rightarrow>
                  axis_dist (constr_x ci) (loc_x loc)
                  + axis_dist (constr_y ci) (loc_y loc)
                  + axis_dist (constr_z ci) (loc_z loc)
                  + sum_list (map (get_constraints_distance a ctx) children)
              | Some parent \<Rightarrow>
                 (case cell_bel ctx parent of
                    None \<Rightarrow> 100000
                  | Some pb \<Rightarrow>
                     (let parent_loc = getBelLocation a pb in
                      axis_dist (constr_x ci) (loc_x loc - loc_x parent_loc)
                      + axis_dist (constr_y ci) (loc_y loc - loc_y parent_loc)
                      + (if constr_abs_z ci then axis_dist (constr_z ci) (loc_z loc)
                         else axis_dist (constr_z ci) (loc_z loc - loc_z parent_loc))
                      + sum_list (map (get_constraints_distance a ctx) children))))))"

text \<open>The tree below a cell of the store, and the distance of a cell given by name.\<close>

definition cell_chain :: "Context \<Rightarrow> IdString \<Rightarrow> chain" where
  "cell_chain ctx c =
     Chain c (case map_of (cells ctx) c of None \<Rightarrow> [] | Some ci \<Rightarrow> constr_children ci)"

definition constraints_distance :: "Arch \<Rightarrow> Context \<Rightarrow> IdString \<Rightarrow> int" where
  "constraints_distance a ctx c = get_constraints_distance a ctx (cell_chain ctx c)"

definition constraints_satisfied :: "Arch \<Rightarrow> Context \<Rightarrow> chain \<Rightarrow> bool" where
  "constraints_satisfied a ctx ch \<longleftrightarrow> get_constraints_distance a ctx ch = 0"

subsection \<open>The legaliser of relative constraints\<close>

text \<open>
  The candidates of the loops at lines 255 to 278 and 324 to 372: the locations read off
  the three searches, z innermost. The loop body does not touch the searches, so the
  candidates are the same whatever the body does with them.
\<close>

lemma ids_next_measure_undone:
  "\<not> ids_done (ids_next s) \<Longrightarrow> ids_measure (ids_next s) < ids_measure s"
  by (auto simp: ids_done_def ids_next_def ids_measure_def split: if_splits)

function search_locs :: "IncreasingDiameterSearch \<Rightarrow> IncreasingDiameterSearch \<Rightarrow> IncreasingDiameterSearch \<Rightarrow> Loc list" where
  "search_locs xSearch ySearch zSearch =
     (if ids_done xSearch then []
      else
        (let cloc = \<lparr>loc_x = ids_get xSearch, loc_y = ids_get ySearch, loc_z = ids_get zSearch\<rparr>;
             zSearch1 = ids_next zSearch
         in if ids_done zSearch1 then
              (let zSearch2 = ids_reset zSearch1;
                   ySearch1 = ids_next ySearch
               in if ids_done ySearch1
                  then cloc # search_locs (ids_next xSearch) (ids_reset ySearch1) zSearch2
                  else cloc # search_locs xSearch ySearch1 zSearch2)
            else cloc # search_locs xSearch ySearch zSearch1))"
  by pat_completeness auto
termination
  by (relation "measures [\<lambda>(x, y, z). ids_measure x, \<lambda>(x, y, z). ids_measure y,
                           \<lambda>(x, y, z). ids_measure z]")
     (auto simp: ids_next_measure ids_next_measure_undone)

declare search_locs.simps [simp del]

text \<open>The searches for a child of a cell tried at \<open>loc\<close> (lines 234 to 253).\<close>

definition child_searches :: "Arch \<Rightarrow> Loc \<Rightarrow> CellInfo \<Rightarrow> IncreasingDiameterSearch \<times> IncreasingDiameterSearch \<times> IncreasingDiameterSearch" where
  "child_searches a loc child =
     (let xSearch = (case constr_x child of
                       None \<Rightarrow> ids_range (loc_x loc) 0 (getGridDimX a - 1)
                     | Some cx \<Rightarrow> ids_fixed (loc_x loc + cx));
          ySearch = (case constr_y child of
                       None \<Rightarrow> ids_range (loc_y loc) 0 (getGridDimY a - 1)
                     | Some cy \<Rightarrow> ids_fixed (loc_y loc + cy));
          zSearch = (case constr_z child of
                       None \<Rightarrow> ids_range (loc_z loc) 0 (getTileDimZ a (loc_x loc) (loc_y loc))
                     | Some cz \<Rightarrow>
                         if constr_abs_z child then ids_fixed cz else ids_fixed (loc_z loc + cz))
      in (xSearch, ySearch, zSearch))"

text \<open>The searches for a chain root whose current location is \<open>currentLoc\<close> (lines 310 to 323).\<close>

definition root_searches :: "Arch \<Rightarrow> Loc \<Rightarrow> CellInfo \<Rightarrow> IncreasingDiameterSearch \<times> IncreasingDiameterSearch \<times> IncreasingDiameterSearch" where
  "root_searches a currentLoc cell =
     (let xRootSearch = (case constr_x cell of
                           None \<Rightarrow> ids_range (loc_x currentLoc) 0 (getGridDimX a - 1)
                         | Some cx \<Rightarrow> ids_fixed cx);
          yRootSearch = (case constr_y cell of
                           None \<Rightarrow> ids_range (loc_y currentLoc) 0 (getGridDimY a - 1)
                         | Some cy \<Rightarrow> ids_fixed cy);
          zRootSearch = (case constr_z cell of
                           None \<Rightarrow> ids_range (loc_z currentLoc) 0
                                     (getTileDimZ a (loc_x currentLoc) (loc_y currentLoc))
                         | Some cz \<Rightarrow> ids_fixed cz)
      in (xRootSearch, yRootSearch, zRootSearch))"

definition searches_locs :: "IncreasingDiameterSearch \<times> IncreasingDiameterSearch \<times> IncreasingDiameterSearch \<Rightarrow> Loc list" where
  "searches_locs t = (case t of (xs, ys, zs) \<Rightarrow> search_locs xs ys zs)"

text \<open>
  \<^verbatim>\<open>CellLocations\<close> is a hash map from cell names to locations; it is an association
  list with one entry per name, and the order of the list stands for the iteration order
  of the hash map, which the source leaves open.
\<close>

type_synonym CellLocations = "(IdString \<times> Loc) list"

text \<open>
  \<^verbatim>\<open>valid_loc_for\<close>, with the reference parameters \<^verbatim>\<open>solution\<close> and
  \<^verbatim>\<open>usedLocations\<close> returned. \<open>children_valid\<close> is the loop over the children (lines
  233 to 283) and \<open>child_valid\<close> the loop over the candidates of one child (lines 255 to
  278). The context is only read. \<^verbatim>\<open>ctx->cells[confCell]\<close> of an unknown name is a
  null pointer.
\<close>

function valid_loc_for :: "Arch \<Rightarrow> Context \<Rightarrow> chain \<Rightarrow> Loc \<Rightarrow> CellLocations \<Rightarrow> Loc set \<Rightarrow> error + bool \<times> CellLocations \<times> Loc set"
  and children_valid :: "Arch \<Rightarrow> Context \<Rightarrow> Loc \<Rightarrow> chain list \<Rightarrow> CellLocations \<Rightarrow> Loc set \<Rightarrow> error + bool \<times> CellLocations \<times> Loc set"
  and child_valid :: "Arch \<Rightarrow> Context \<Rightarrow> chain \<Rightarrow> Loc list \<Rightarrow> CellLocations \<Rightarrow> Loc set \<Rightarrow> error + bool \<times> CellLocations \<times> Loc set"
where
  "valid_loc_for a ctx (Chain c children) loc solution usedLocations =
     (case getBelByLocation a loc of
        None \<Rightarrow> Inr (False, solution, usedLocations)
      | Some locBel \<Rightarrow>
         (case map_of (cells ctx) c of
            None \<Rightarrow> Inl BadPointer
          | Some ci \<Rightarrow>
             if getBelType a locBel \<noteq> belTypeFromId a (cell_type ci)
             then Inr (False, solution, usedLocations)
             else
               (case (if checkBelAvail ctx locBel then Inr False
                      else (case getConflictingBelCell ctx locBel of
                              None \<Rightarrow> Inl BadPointer
                            | Some confCell \<Rightarrow>
                               (case map_of (cells ctx) confCell of
                                  None \<Rightarrow> Inl BadPointer
                                | Some cci \<Rightarrow>
                                    Inr (strength_val (belStrength cci)
                                           \<ge> strength_val STRENGTH_STRONG)))) of
                  Inl e \<Rightarrow> Inl e
                | Inr blocked \<Rightarrow>
                    if blocked then Inr (False, solution, usedLocations)
                    else
                      (case children_valid a ctx loc children solution (insert loc usedLocations) of
                         Inl e \<Rightarrow> Inl e
                       | Inr (success, solution', used') \<Rightarrow>
                           if \<not> success then Inr (False, solution', used' - {loc})
                           else
                             Inr (True, AList.update c loc solution',
                                  (case map_of solution' c of
                                     None \<Rightarrow> used'
                                   | Some old \<Rightarrow> used' - {old}))))))"
| "children_valid a ctx loc [] solution usedLocations = Inr (True, solution, usedLocations)"
| "children_valid a ctx loc (child # rest) solution usedLocations =
     (case child of Chain cn grandchildren \<Rightarrow>
        (case map_of (cells ctx) cn of
           None \<Rightarrow> Inl BadPointer
         | Some cci \<Rightarrow>
            (case child_valid a ctx child (searches_locs (child_searches a loc cci))
                    solution usedLocations of
               Inl e \<Rightarrow> Inl e
             | Inr (success, solution', used') \<Rightarrow>
                 if \<not> success then Inr (False, solution', used')
                 else children_valid a ctx loc rest solution' used')))"
| "child_valid a ctx child [] solution usedLocations = Inr (False, solution, usedLocations)"
| "child_valid a ctx child (cloc # others) solution usedLocations =
     (if cloc \<in> usedLocations then child_valid a ctx child others solution usedLocations
      else
        (case valid_loc_for a ctx child cloc solution usedLocations of
           Inl e \<Rightarrow> Inl e
         | Inr (success, solution', used') \<Rightarrow>
             if success then Inr (True, solution', used')
             else child_valid a ctx child others solution' used'))"
  by pat_completeness auto
termination
  by (relation "inv_image (less_than <*lex*> less_than)
        (\<lambda>v. case v of
           Inl (a, ctx, ch, loc, solution, used) \<Rightarrow> (size ch, 0)
         | Inr (Inl (a, ctx, loc, chs, solution, used)) \<Rightarrow> (size_list size chs, 0)
         | Inr (Inr (a, ctx, ch, locs, solution, used)) \<Rightarrow> (size ch, Suc (length locs)))")
     auto

declare valid_loc_for.simps [simp del] children_valid.simps [simp del] child_valid.simps [simp del]

text \<open>\<^verbatim>\<open>lockdown_chain\<close>: strength LOCKED on every cell of the tree.\<close>

fun lockdown_chain :: "chain \<Rightarrow> Context \<Rightarrow> Context" where
  "lockdown_chain (Chain c children) ctx =
     fold lockdown_chain children (set_cell_strength c STRENGTH_LOCKED ctx)"

text \<open>
  The first loop over the solution (lines 345 to 349): every cell of the solution that
  holds a bel is unbound.
\<close>

fun unbind_solution :: "CellLocations \<Rightarrow> Context \<Rightarrow> Context result" where
  "unbind_solution [] ctx = Inr ctx"
| "unbind_solution (cp # cps) ctx =
     (case map_of (cells ctx) (fst cp) of
        None \<Rightarrow> Inl (OutOfRange, ctx)
      | Some ci \<Rightarrow>
         (case bel ci of
            None \<Rightarrow> unbind_solution cps ctx
          | Some b \<Rightarrow>
             (case unbindBel (Some (fst cp)) b ctx of
                Inl e \<Rightarrow> Inl e
              | Inr ctx' \<Rightarrow> unbind_solution cps ctx')))"

text \<open>
  The second loop (lines 350 to 368): every cell of the solution is bound to the bel at
  its location with strength LOCKED; an incumbent is unbound and appended to
  \<^verbatim>\<open>rippedCells\<close> after the assertion on its strength. The device is not asked about
  a location without a bel.
\<close>

fun bind_solution :: "Arch \<Rightarrow> CellLocations \<Rightarrow> IdString list \<Rightarrow> Context \<Rightarrow> (IdString list \<times> Context) result" where
  "bind_solution a [] rippedCells ctx = Inr (rippedCells, ctx)"
| "bind_solution a (cp # cps) rippedCells ctx =
     (case getBelByLocation a (snd cp) of
        None \<Rightarrow> Inl (AssertionFailed, ctx)
      | Some target \<Rightarrow>
         (case (if \<not> checkBelAvail ctx target then
                  (case getConflictingBelCell ctx target of
                     None \<Rightarrow> Inr (rippedCells, ctx)
                   | Some conflicting \<Rightarrow>
                      (case map_of (cells ctx) conflicting of
                         None \<Rightarrow> Inl (OutOfRange, ctx)
                       | Some confl_cell \<Rightarrow>
                          if \<not> strength_val (belStrength confl_cell) < strength_val STRENGTH_STRONG
                          then Inl (AssertionFailed, ctx)
                          else
                            (case unbindBel None target ctx of
                               Inl e \<Rightarrow> Inl e
                             | Inr ctxu \<Rightarrow> Inr (rippedCells @ [conflicting], ctxu))))
                else Inr (rippedCells, ctx)) of
            Inl e \<Rightarrow> Inl e
          | Inr (rippedCells1, ctx1) \<Rightarrow>
             (case bindBel target (fst cp) STRENGTH_LOCKED ctx1 of
                Inl e \<Rightarrow> Inl e
              | Inr ctx2 \<Rightarrow> bind_solution a cps rippedCells1 ctx2)))"

text \<open>
  The loop over the candidate locations of a chain root (lines 324 to 372). The first
  location that \<^verbatim>\<open>valid_loc_for\<close> accepts is applied and the function returns true;
  with no such location it returns false.
\<close>

fun legalise_root :: "Arch \<Rightarrow> chain \<Rightarrow> Loc list \<Rightarrow> IdString list \<Rightarrow> Context \<Rightarrow> ((bool \<times> IdString list) \<times> Context) result" where
  "legalise_root a ch [] rippedCells ctx = Inr ((False, rippedCells), ctx)"
| "legalise_root a ch (rootLoc # others) rippedCells ctx =
     (case valid_loc_for a ctx ch rootLoc [] {} of
        Inl e \<Rightarrow> Inl (e, ctx)
      | Inr (ok, solution, used) \<Rightarrow>
          if ok then
            (case unbind_solution solution ctx of
               Inl e \<Rightarrow> Inl e
             | Inr ctx1 \<Rightarrow>
                (case bind_solution a solution rippedCells ctx1 of
                   Inl e \<Rightarrow> Inl e
                 | Inr (rippedCells', ctx2) \<Rightarrow>
                     if \<not> constraints_satisfied a ctx2 ch then Inl (AssertionFailed, ctx2)
                     else Inr ((True, rippedCells'), ctx2)))
          else legalise_root a ch others rippedCells ctx)"

text \<open>
  \<^verbatim>\<open>legalise_cell\<close>. \<^verbatim>\<open>oldLocations[cell->name]\<close> would insert a default location
  for an unknown name; \<^verbatim>\<open>legalise_constraints\<close> has stored every cell before, and the
  model stops on an unknown name.
\<close>

definition legalise_cell :: "Arch \<Rightarrow> (IdString \<times> Loc) list \<Rightarrow> IdString \<Rightarrow> IdString list \<Rightarrow> Context \<Rightarrow> ((bool \<times> IdString list) \<times> Context) result" where
  "legalise_cell a oldLocations c rippedCells ctx =
     (case map_of (cells ctx) c of
        None \<Rightarrow> Inl (BadPointer, ctx)
      | Some ci \<Rightarrow>
          if constr_parent ci \<noteq> None then Inr ((True, rippedCells), ctx)
          else if constraints_satisfied a ctx (Chain c (constr_children ci))
          then Inr ((True, rippedCells), lockdown_chain (Chain c (constr_children ci)) ctx)
          else
            (case (case bel ci of
                     Some b \<Rightarrow> Some (getBelLocation a b)
                   | None \<Rightarrow> map_of oldLocations c) of
               None \<Rightarrow> Inl (OutOfRange, ctx)
             | Some currentLoc \<Rightarrow>
                 legalise_root a (Chain c (constr_children ci))
                   (searches_locs (root_searches a currentLoc ci)) rippedCells ctx))"

text \<open>
  \<^verbatim>\<open>sorted(ctx->cells)\<close>: the names of the cells in ascending order, each once.
\<close>

definition sorted_cells :: "Context \<Rightarrow> IdString list" where
  "sorted_cells ctx = sort (remdups (map fst (cells ctx)))"

text \<open>
  The snapshot of lines 407 to 409. For an unplaced cell \<^verbatim>\<open>getBelLocation\<close> is asked
  about the null bel.
\<close>

fun snapshot_locations :: "Arch \<Rightarrow> Context \<Rightarrow> IdString list \<Rightarrow> (IdString \<times> Loc) list \<Rightarrow> error + (IdString \<times> Loc) list" where
  "snapshot_locations a ctx [] oldLocations = Inr oldLocations"
| "snapshot_locations a ctx (c # cs) oldLocations =
     (case cell_bel ctx c of
        None \<Rightarrow>
          (case nullBelLocation a of
             None \<Rightarrow> Inl AssertionFailed
           | Some l \<Rightarrow> snapshot_locations a ctx cs (AList.update c l oldLocations))
      | Some b \<Rightarrow> snapshot_locations a ctx cs (AList.update c (getBelLocation a b) oldLocations))"

text \<open>The loop of lines 410 to 418.\<close>

fun legalise_cells :: "Arch \<Rightarrow> (IdString \<times> Loc) list \<Rightarrow> IdString list \<Rightarrow> IdString list \<Rightarrow> Context \<Rightarrow> (IdString list \<times> Context) result" where
  "legalise_cells a oldLocations [] rippedCells ctx = Inr (rippedCells, ctx)"
| "legalise_cells a oldLocations (c # cs) rippedCells ctx =
     (case legalise_cell a oldLocations c rippedCells ctx of
        Inl e \<Rightarrow> Inl e
      | Inr ((res, rippedCells'), ctx') \<Rightarrow>
          if \<not> res then Inl (FailedToPlaceChain c, ctx')
          else legalise_cells a oldLocations cs rippedCells' ctx')"

text \<open>
  The loop of lines 419 to 425. The second argument of the call at line 420 is the
  enumerator \<^verbatim>\<open>STRENGTH_WEAK\<close>, converted to the \<^verbatim>\<open>bool\<close> parameter
  \<^verbatim>\<open>require_legality\<close>.
\<close>

fun place_ripped :: "Arch \<Rightarrow> IdString list \<Rightarrow> Context \<Rightarrow> (bool \<times> Context) result" where
  "place_ripped a [] ctx = Inr (True, ctx)"
| "place_ripped a (rippedCell # cs) ctx =
     (case place_single_cell a ctx rippedCell (bool_of_strength STRENGTH_WEAK) of
        Inl e \<Rightarrow> Inl e
      | Inr (res, ctx') \<Rightarrow>
          if \<not> res then Inl (FailedAfterLegalisation rippedCell, ctx')
          else place_ripped a cs ctx')"

definition legalise_constraints :: "Arch \<Rightarrow> Context \<Rightarrow> (bool \<times> Context) result" where
  "legalise_constraints a ctx =
     (case snapshot_locations a ctx (sorted_cells ctx) [] of
        Inl e \<Rightarrow> Inl (e, ctx)
      | Inr oldLocations \<Rightarrow>
         (case legalise_cells a oldLocations (sorted_cells ctx) [] ctx of
            Inl e \<Rightarrow> Inl e
          | Inr (rippedCells, ctx') \<Rightarrow> place_ripped a rippedCells ctx'))"

definition legalise_relative_constraints :: "Arch \<Rightarrow> Context \<Rightarrow> (bool \<times> Context) result" where
  "legalise_relative_constraints a ctx = legalise_constraints a ctx"

subsection \<open>Concrete devices and netlists\<close>

text \<open>
  A device of \<open>n\<close> bels of one type in a row, bel \<open>i\<close> at (i, 0, 0), with one bel per
  tile; \<open>valid\<close> is its legality predicate. Delays are in picoseconds. The generator
  hands out 3, 4, 5 and so on.
\<close>

definition line_arch :: "nat \<Rightarrow> (IdString \<Rightarrow> BelId \<Rightarrow> bool) \<Rightarrow> Arch" where
  "line_arch n valid =
     \<lparr>getBels = [0..<n], getBelType = (\<lambda>b. 0), belTypeFromId = (\<lambda>t. 0),
      getBelLocation = (\<lambda>b. \<lparr>loc_x = int b, loc_y = 0, loc_z = 0\<rparr>),
      nullBelLocation = None,
      getBelByLocation =
        (\<lambda>l. if loc_y l = 0 \<and> loc_z l = 0 \<and> 0 \<le> loc_x l \<and> loc_x l < int n
             then Some (nat (loc_x l)) else None),
      getGridDimX = int n, getGridDimY = 1, getTileDimZ = (\<lambda>x y. 1),
      getBelGlobalBuf = (\<lambda>b. False),
      isValidBelForCell = (\<lambda>ctx. valid),
      predictDelay = (\<lambda>ctx net load. 0),
      getDelayNS = (\<lambda>d. real_of_int d / 1000),
      delay_max = 2147483647, wirelen_max = 9223372036854775807,
      rng_stream = (\<lambda>k. k + 3), timing_driven = False\<rparr>"

definition free_cell :: CellInfo where
  "free_cell =
     \<lparr>cell_type = 0, bel = None, belStrength = STRENGTH_NONE, ports = [],
      constr_parent = None, constr_children = [], constr_x = None, constr_y = None,
      constr_z = None, constr_abs_z = False\<rparr>"

text \<open>One unplaced cell and nothing else.\<close>

definition ctx_single :: Context where
  "ctx_single =
     \<lparr>cells = [(0, free_cell)], nets = [], bel_to_cell = Map.empty, rng_pos = 0, trace = []\<rparr>"

text \<open>Cell 1 sits weakly on bel 0, the only bel of \<open>line_arch 1\<close>; cell 0 is unplaced.\<close>

definition ctx_contended :: Context where
  "ctx_contended =
     \<lparr>cells = [(0, free_cell), (1, free_cell\<lparr>bel := Some 0, belStrength := STRENGTH_WEAK\<rparr>)],
      nets = [], bel_to_cell = [0 \<mapsto> 1], rng_pos = 0, trace = []\<rparr>"

text \<open>
  Cell 0 is unplaced and cell 1 sits with strength STRONG on bel 2 of \<open>line_arch 3\<close>;
  net 0 runs from cell 1 to cell 0. With cell 0 on bel 0, 1 or 2 the metric of cell 0 is
  2, 1 or 0.
\<close>

definition ctx_wired :: Context where
  "ctx_wired =
     \<lparr>cells = [(0, free_cell\<lparr>ports := [(0, Some 0)]\<rparr>),
               (1, free_cell\<lparr>bel := Some 2, belStrength := STRENGTH_STRONG, ports := [(0, Some 0)]\<rparr>)],
      nets = [(0, \<lparr>net_driver = \<lparr>pr_cell = Some 1, pr_budget = 0\<rparr>,
                   net_users = [\<lparr>pr_cell = Some 0, pr_budget = 0\<rparr>]\<rparr>)],
      bel_to_cell = [2 \<mapsto> 1], rng_pos = 0, trace = []\<rparr>"

text \<open>
  Three placed cells on \<open>line_arch 4\<close>, all of strength WEAK. Cell 0 is constrained to
  the absolute location (0, 0, 0) and sits on bel 3. Cell 1 is the root of a chain with
  the child cell 2 at the relative offset (+1, 0, 0); they sit on bels 0 and 1, so their
  chain is satisfied.
\<close>

definition ctx_chains :: Context where
  "ctx_chains =
     \<lparr>cells =
        [(0, free_cell\<lparr>bel := Some 3, belStrength := STRENGTH_WEAK,
                       constr_x := Some 0, constr_y := Some 0, constr_z := Some 0\<rparr>),
         (1, free_cell\<lparr>bel := Some 0, belStrength := STRENGTH_WEAK,
                       constr_children := [Chain 2 []]\<rparr>),
         (2, free_cell\<lparr>bel := Some 1, belStrength := STRENGTH_WEAK, constr_parent := Some 1,
                       constr_x := Some 1, constr_y := Some 0, constr_z := Some 0\<rparr>)],
      nets = [], bel_to_cell = [3 \<mapsto> 0, 0 \<mapsto> 1, 1 \<mapsto> 2], rng_pos = 0, trace = []\<rparr>"

subsection \<open>Observing a run\<close>

definition final_ctx :: "('a \<times> Context) result \<Rightarrow> Context" where
  "final_ctx r = (case r of Inl (e, ctx) \<Rightarrow> ctx | Inr (v, ctx) \<Rightarrow> ctx)"

definition result_error :: "('a \<times> Context) result \<Rightarrow> error option" where
  "result_error r = (case r of Inl (e, ctx) \<Rightarrow> Some e | Inr v \<Rightarrow> None)"

definition result_value :: "('a \<times> Context) result \<Rightarrow> 'a option" where
  "result_value r = (case r of Inl e \<Rightarrow> None | Inr (v, ctx) \<Rightarrow> Some v)"

text \<open>
  The context that a call of \<open>unbindBel\<close> leaves behind, and the context after a call
  that passes the assertion.
\<close>

definition ctx_of :: "Context result \<Rightarrow> Context" where
  "ctx_of r = (case r of Inl (e, ctx) \<Rightarrow> ctx | Inr ctx \<Rightarrow> ctx)"

definition unbound :: "IdString option \<Rightarrow> BelId \<Rightarrow> Context \<Rightarrow> Context" where
  "unbound mover b ctx =
     (case bel_to_cell ctx b of
        None \<Rightarrow> ctx
      | Some c \<Rightarrow>
          ctx\<lparr>cells := AList.map_entry c (\<lambda>ci. ci\<lparr>bel := None, belStrength := STRENGTH_NONE\<rparr>) (cells ctx),
              bel_to_cell := (bel_to_cell ctx)(b := None),
              trace := trace ctx @ [EvUnbind (if mover = Some c then OwnCell else Ripup) c (cell_strength ctx c)]\<rparr>)"

text \<open>The events a run from \<open>ctx\<close> to \<open>ctx'\<close> has appended to the trace.\<close>

definition new_events :: "Context \<Rightarrow> Context \<Rightarrow> event list" where
  "new_events ctx ctx' = drop (length (trace ctx)) (trace ctx')"

definition extends :: "(event \<Rightarrow> bool) \<Rightarrow> Context \<Rightarrow> Context \<Rightarrow> bool" where
  "extends Q ctx ctx' \<longleftrightarrow> (\<exists>evs. trace ctx' = trace ctx @ evs \<and> list_all Q evs)"

fun passes_of :: "event list \<Rightarrow> nat list" where
  "passes_of [] = []"
| "passes_of (EvPass n # es) = n # passes_of es"
| "passes_of (e # es) = passes_of es"

text \<open>
  What the loop over the bels may add to the trace in pass \<open>pass\<close> with counter
  \<open>iters\<close>, what the whole scan of that pass may add, and what a run of the outer loop
  may add in which pass number and counter add up to \<open>tot\<close>.
\<close>

definition candidate_event :: "nat \<Rightarrow> nat \<Rightarrow> event \<Rightarrow> bool" where
  "candidate_event iters pass e =
     (case e of
        EvPass n \<Rightarrow> False
      | EvCandidate n m j w \<Rightarrow>
          n = pass \<and> (case j of None \<Rightarrow> iters < 4 \<and> w = m
                      | Some v \<Rightarrow> 4 \<le> iters \<and> v < 25 \<and> w = m + int v)
      | EvUnbind site c s \<Rightarrow> False)"

definition scan_event :: "nat \<Rightarrow> nat \<Rightarrow> event \<Rightarrow> bool" where
  "scan_event iters pass e =
     (case e of
        EvPass n \<Rightarrow> False
      | EvCandidate n m j w \<Rightarrow>
          n = pass \<and> (case j of None \<Rightarrow> iters < 4 \<and> w = m
                      | Some v \<Rightarrow> 4 \<le> iters \<and> v < 25 \<and> w = m + int v)
      | EvUnbind site c s \<Rightarrow> True)"

definition loop_event :: "nat \<Rightarrow> event \<Rightarrow> bool" where
  "loop_event tot e =
     (case e of
        EvPass n \<Rightarrow> n \<le> tot
      | EvCandidate n m j w \<Rightarrow>
          (case j of None \<Rightarrow> tot < n + 4 \<and> w = m
           | Some v \<Rightarrow> n + 4 \<le> tot \<and> v < 25 \<and> w = m + int v)
      | EvUnbind site c s \<Rightarrow> True)"

text \<open>
  The jitter rule with \<open>n\<close> jittered passes: for a candidate of pass \<open>k \<le> n\<close> the
  generator was asked, its value is below 25 and the cost is the metric plus that value;
  for a candidate of a later pass the generator was not asked and the cost is the metric.
\<close>

definition jitter_rule :: "nat \<Rightarrow> event \<Rightarrow> bool" where
  "jitter_rule n e =
     (case e of
        EvCandidate k m j w \<Rightarrow>
          (case j of None \<Rightarrow> n < k \<and> w = m | Some v \<Rightarrow> k \<le> n \<and> v < 25 \<and> w = m + int v)
      | EvPass k \<Rightarrow> True
      | EvUnbind site c s \<Rightarrow> True)"

text \<open>
  The placement map and the cells agree: a cell is stored under a bel exactly if it has
  that bel in its \<^verbatim>\<open>bel\<close> field. So a bel holds at most one cell and a cell sits on at
  most one bel.
\<close>

definition consistent :: "Context \<Rightarrow> bool" where
  "consistent ctx \<longleftrightarrow> (\<forall>b c. bel_to_cell ctx b = Some c \<longleftrightarrow> cell_bel ctx c = Some b)"

text \<open>No bel holds the cell.\<close>

definition not_bound :: "IdString \<Rightarrow> Context \<Rightarrow> bool" where
  "not_bound c ctx \<longleftrightarrow> (\<forall>b. bel_to_cell ctx b \<noteq> Some c)"

text \<open>A cell unbound for the sake of another cell had a strength below STRONG.\<close>

definition ripup_weak :: "event \<Rightarrow> bool" where
  "ripup_weak e =
     (case e of
        EvUnbind site c s \<Rightarrow>
          (case site of Ripup \<Rightarrow> strength_val s < strength_val STRENGTH_STRONG | OwnCell \<Rightarrow> True)
      | EvPass n \<Rightarrow> True
      | EvCandidate n m j w \<Rightarrow> True)"

text \<open>A cell that is unbound did not have strength LOCKED.\<close>

definition unlocked_event :: "event \<Rightarrow> bool" where
  "unlocked_event e =
     (case e of
        EvUnbind site c s \<Rightarrow> s \<noteq> STRENGTH_LOCKED
      | EvPass n \<Rightarrow> True
      | EvCandidate n m j w \<Rightarrow> True)"

text \<open>Two contexts with the same cells and the same placement map.\<close>

definition same_placement :: "Context \<Rightarrow> Context \<Rightarrow> bool" where
  "same_placement ctx ctx' \<longleftrightarrow> cells ctx' = cells ctx \<and> bel_to_cell ctx' = bel_to_cell ctx"

text \<open>
  The ripup victim held by the scan is the cell bound to the ripup bel, and its strength
  is below STRONG.
\<close>

definition victim_ok :: "Context \<Rightarrow> scan \<Rightarrow> bool" where
  "victim_ok ctx sc \<longleftrightarrow>
     (\<forall>rb. ripup_bel sc = Some rb \<longrightarrow>
        (\<exists>t. ripup_target sc = Some t \<and> bel_to_cell ctx rb = Some t
             \<and> strength_val (cell_strength ctx t) < strength_val STRENGTH_STRONG))"

text \<open>The context at the end of one pass, and whether it is consistent.\<close>

definition pass_ctx :: "(bool \<times> Context) result + IdString \<times> Context \<Rightarrow> Context" where
  "pass_ctx p = (case p of Inl r \<Rightarrow> final_ctx r | Inr (t, ctx2) \<Rightarrow> ctx2)"

definition pass_consistent :: "(bool \<times> Context) result + IdString \<times> Context \<Rightarrow> bool" where
  "pass_consistent p =
     (case p of Inl (Inl e) \<Rightarrow> True | Inl (Inr (res, ctx')) \<Rightarrow> consistent ctx'
      | Inr (t, ctx2) \<Rightarrow> consistent ctx2)"

text \<open>A run that returns leaves a consistent context.\<close>

definition result_consistent :: "('a \<times> Context) result \<Rightarrow> bool" where
  "result_consistent r = (case r of Inl e \<Rightarrow> True | Inr (v, ctx') \<Rightarrow> consistent ctx')"

text \<open>Two contexts with the same placement, cell by cell, and the same trace.\<close>

definition same_binding :: "Context \<Rightarrow> Context \<Rightarrow> bool" where
  "same_binding ctx ctx' \<longleftrightarrow>
     bel_to_cell ctx' = bel_to_cell ctx \<and> (\<forall>c. cell_bel ctx' c = cell_bel ctx c) \<and> trace ctx' = trace ctx"


text \<open>
  One pass of the outer loop of \<^verbatim>\<open>place_single_cell\<close>, cut out of \<open>place_loop\<close>: either
  the loop ends with a result, or it goes round with the displaced cell.
\<close>

definition place_pass :: "Arch \<Rightarrow> bool \<Rightarrow> nat \<Rightarrow> nat \<Rightarrow> IdString \<Rightarrow> Context \<Rightarrow> (bool \<times> Context) result + IdString \<times> Context" where
  "place_pass a rl iters pass c ctx =
     (case place_scan a rl iters pass c (log_event (EvPass pass) ctx) of
        Inl e \<Rightarrow> Inl (Inl e)
      | Inr (sc, ctx1) \<Rightarrow>
         (case best_bel sc of
            Some bb \<Rightarrow>
              (case bindBel bb c STRENGTH_WEAK ctx1 of
                 Inl e \<Rightarrow> Inl (Inl e)
               | Inr ctx2 \<Rightarrow> Inl (Inr (True, ctx2)))
          | None \<Rightarrow>
              if iters = 0 then Inl (Inl (RipupLimitExceeded c, ctx1))
              else
                (case ripup_bel sc of
                   None \<Rightarrow> Inl (Inl (FailedToPlace c, ctx1))
                 | Some rb \<Rightarrow>
                    (case ripup_target sc of
                       None \<Rightarrow> Inl (Inl (BadPointer, ctx1))
                     | Some t \<Rightarrow>
                        (case cell_bel ctx1 t of
                           None \<Rightarrow> Inl (Inl (AssertionFailed, ctx1))
                         | Some tb \<Rightarrow>
                            (case unbindBel None tb ctx1 of
                               Inl e \<Rightarrow> Inl (Inl e)
                             | Inr ctxu \<Rightarrow>
                                (case bindBel rb c STRENGTH_WEAK ctxu of
                                   Inl e \<Rightarrow> Inl (Inl e)
                                 | Inr ctx2 \<Rightarrow> Inr (t, ctx2))))))))"

subsection \<open>The axis search at the edge of its range\<close>

lemma ids_next_bounds [simp]:
  "ids_min (ids_next s) = ids_min s" "ids_max (ids_next s) = ids_max s"
  by (simp_all add: ids_next_def)

lemma ids_run_in_range:
  "ids_min s \<le> ids_max s \<Longrightarrow> v \<in> set (ids_run s) \<Longrightarrow> ids_min s \<le> v \<and> v \<le> ids_max s"
proof (induction s rule: ids_run.induct)
  case (1 s)
  show ?case
  proof (cases "ids_done s")
    case True
    with "1.prems" show ?thesis by (simp add: ids_run.simps [of s])
  next
    case False
    with "1.prems" have "v = ids_get s \<or> v \<in> set (ids_run (ids_next s))"
      by (simp add: ids_run.simps [of s])
    then show ?thesis
    proof
      assume "v = ids_get s"
      with "1.prems"(1) show ?thesis by (simp add: ids_get_def Let_def)
    next
      assume "v \<in> set (ids_run (ids_next s))"
      with "1.IH" [OF False] "1.prems"(1) show ?thesis by simp
    qed
  qed
qed

text \<open>
  C4. Started at the upper end of its range, the search shows the end value twice: the
  first \<^verbatim>\<open>next()\<close> steps to offset +1 without looking at \<^verbatim>\<open>max\<close>, and
  \<^verbatim>\<open>get()\<close> clamps the value back. The sequence for (start, min, max) = (2, 0, 2) is
  2, 2, 1, 0.
\<close>

theorem ids_run_repeats_at_edge: "ids_run (ids_range 2 0 2) = [2, 2, 1, 0]"
  by code_simp

subsection \<open>The timing factor\<close>

lemma timing_factor_range: "1 \<le> timing_factor a ws \<and> timing_factor a ws \<le> 5"
  by (simp add: timing_factor_def)

text \<open>
  C2, the claim as stated fails: with a worst slack of 0 the factor is
  \<open>min 5 (1 + exp 0) = 2\<close>, not 1.
\<close>

theorem timing_factor_zero_slack_not_one: "timing_factor (line_arch 1 (\<lambda>c b. True)) 0 \<noteq> 1"
  by (simp add: timing_factor_def line_arch_def)

text \<open>
  C2, amended: the factor lies in the interval [1, 5], and where the worst slack is 0
  nanoseconds it is 2.
\<close>

theorem timing_factor_bounds:
  "1 \<le> timing_factor a ws \<and> timing_factor a ws \<le> 5
   \<and> (getDelayNS a ws = 0 \<longrightarrow> timing_factor a ws = 2)"
  by (simp add: timing_factor_def)

theorem timing_factor_bounds_witness:
  "getDelayNS (line_arch 1 (\<lambda>c b. True)) 0 = 0
   \<and> timing_factor (line_arch 1 (\<lambda>c b. True)) 0 = 2"
proof -
  have h: "getDelayNS (line_arch 1 (\<lambda>c b. True)) 0 = 0"
    by (simp add: line_arch_def)
  from timing_factor_bounds [of "line_arch 1 (\<lambda>c b. True)" 0] h show ?thesis
    by simp
qed

subsection \<open>Traces of the single-cell placer\<close>

lemma extends_refl [simp]: "extends Q ctx ctx"
  by (simp add: extends_def)

lemma extends_trans: "extends Q ctx ctx1 \<Longrightarrow> extends Q ctx1 ctx2 \<Longrightarrow> extends Q ctx ctx2"
  by (auto simp: extends_def)

lemma extends_mono: "extends Q ctx ctx' \<Longrightarrow> (\<And>e. Q e \<Longrightarrow> Q' e) \<Longrightarrow> extends Q' ctx ctx'"
  by (auto simp: extends_def list_all_iff)

lemma extends_trace_eq: "trace ctx' = trace ctx \<Longrightarrow> extends Q ctx ctx'"
  by (simp add: extends_def)

lemma extends_log: "Q e \<Longrightarrow> extends Q ctx (log_event e ctx)"
  by (simp add: extends_def log_event_def)

lemma extends_new_events: "extends Q ctx ctx' \<Longrightarrow> list_all Q (new_events ctx ctx')"
  by (auto simp: extends_def new_events_def)

lemma ctx_of_simps [simp]: "ctx_of (Inl (e, ctx)) = ctx" "ctx_of (Inr ctx) = ctx"
  by (simp_all add: ctx_of_def)

lemma extends_unbind_any:
  "(\<And>site c s. Q (EvUnbind site c s)) \<Longrightarrow> extends Q ctx (ctx_of (unbindBel mover b ctx))"
  by (auto simp: extends_def unbindBel_def log_event_def Let_def split: option.splits)

lemma unbindBel_Inr: "unbindBel m b ctx = Inr ctx' \<Longrightarrow> ctx' = unbound m b ctx"
  by (auto simp: unbindBel_def unbound_def log_event_def Let_def split: option.splits if_splits)

lemma unbindBel_Inl: "unbindBel m b ctx = Inl (e, x) \<Longrightarrow> trace x = trace (unbound m b ctx)"
  by (auto simp: unbindBel_def unbound_def log_event_def Let_def split: option.splits if_splits)

lemma unbindBel_below_locked:
  "bel_to_cell ctx b = Some t \<Longrightarrow> strength_val (cell_strength ctx t) < strength_val STRENGTH_LOCKED
   \<Longrightarrow> unbindBel m b ctx = Inr (unbound m b ctx)"
  by (simp add: unbindBel_def unbound_def log_event_def Let_def)

lemma unbindBel_below_strong:
  "bel_to_cell ctx b = Some t \<Longrightarrow> strength_val (cell_strength ctx t) < strength_val STRENGTH_STRONG
   \<Longrightarrow> unbindBel m b ctx = Inr (unbound m b ctx)"
  by (rule unbindBel_below_locked) auto

lemma extends_same_trace: "trace x = trace y \<Longrightarrow> extends Q ctx x = extends Q ctx y"
  by (simp add: extends_def)

lemma trace_bindBel: "bindBel b c s ctx = Inr ctx' \<Longrightarrow> trace ctx' = trace ctx"
  by (auto simp: bindBel_def split: if_splits)

lemma trace_bindBel_err: "bindBel b c s ctx = Inl (e, ctx') \<Longrightarrow> ctx' = ctx"
  by (auto simp: bindBel_def split: if_splits)

lemma extends_bindBel:
  "bindBel b c s x = Inr x' \<Longrightarrow> extends Q ctx x' \<longleftrightarrow> extends Q ctx x"
  by (auto simp: extends_def dest: trace_bindBel)

lemma logged_cost_extends:
  "logged_cost a iters pass c b ctx = r \<Longrightarrow> extends (candidate_event iters pass) ctx (final_ctx r)"
  by (auto simp: logged_cost_def candidate_cost_def final_ctx_def rng_def log_event_def extends_def
                 candidate_event_def
           split: sum.splits if_splits prod.splits)

lemma final_ctx_simps [simp]: "final_ctx (Inl (e, ctx)) = ctx" "final_ctx (Inr (v, ctx)) = ctx"
  by (simp_all add: final_ctx_def)

lemma scan_bel_extends:
  "extends (candidate_event iters pass) ctx (final_ctx (scan_bel a rl iters pass c tt b sc ctx))"
proof -
  have cc: "extends (candidate_event iters pass) ctx (final_ctx (logged_cost a iters pass c b ctx))"
    by (rule logged_cost_extends) simp
  show ?thesis
    using cc by (auto simp: scan_bel_def split: sum.splits option.splits prod.splits)
qed

lemma scan_bels_extends:
  "extends (candidate_event iters pass) ctx (final_ctx (scan_bels a rl iters pass c tt bs sc ctx))"
proof (induction bs arbitrary: sc ctx)
  case Nil
  show ?case by simp
next
  case (Cons b bs)
  have step: "extends (candidate_event iters pass) ctx (final_ctx (scan_bel a rl iters pass c tt b sc ctx))"
    by (rule scan_bel_extends)
  show ?case
  proof (cases "scan_bel a rl iters pass c tt b sc ctx")
    case (Inl e)
    with step show ?thesis by simp
  next
    case (Inr p)
    obtain sc' ctx' where p: "p = (sc', ctx')" by (cases p)
    from step Inr p have "extends (candidate_event iters pass) ctx ctx'" by simp
    moreover have "extends (candidate_event iters pass) ctx' (final_ctx (scan_bels a rl iters pass c tt bs sc' ctx'))"
      by (rule Cons.IH)
    ultimately show ?thesis using Inr p by (simp add: extends_trans)
  qed
qed

lemma candidate_scan_event: "candidate_event iters pass e \<Longrightarrow> scan_event iters pass e"
  by (auto simp: candidate_event_def scan_event_def split: event.splits)

lemma place_scan_extends:
  "extends (scan_event iters pass) ctx (final_ctx (place_scan a rl iters pass c ctx))"
proof (cases "map_of (cells ctx) c")
  case None
  then show ?thesis by (simp add: place_scan_def)
next
  case (Some ci)
  have own: "extends (scan_event iters pass) ctx (ctx_of (unbind_own c ctx))"
    by (simp add: unbind_own_def extends_unbind_any scan_event_def split: option.splits)
  have sc: "\<And>tt x. extends (scan_event iters pass) x
        (final_ctx (scan_bels a rl iters pass c tt (getBels a) (scan_init a) x))"
    by (rule extends_mono [OF scan_bels_extends candidate_scan_event])
  show ?thesis
  proof (cases "unbind_own c ctx")
    case (Inl e)
    obtain er x where "e = (er, x)" by (cases e)
    with own Inl Some show ?thesis by (simp add: place_scan_def)
  next
    case (Inr ctx1)
    with own have "extends (scan_event iters pass) ctx ctx1" by simp
    from extends_trans [OF this sc] Inr Some show ?thesis
      by (simp add: place_scan_def Let_def)
  qed
qed

lemma passes_of_append [simp]: "passes_of (xs @ ys) = passes_of xs @ passes_of ys"
  by (induction xs rule: passes_of.induct) simp_all

lemma passes_of_no_pass: "list_all (scan_event iters pass) evs \<Longrightarrow> passes_of evs = []"
  by (induction evs rule: passes_of.induct) (simp_all add: scan_event_def)

lemma extends_passes:
  "extends (scan_event iters pass) ctx ctx' \<Longrightarrow> passes_of (trace ctx') = passes_of (trace ctx)"
  by (auto simp: extends_def passes_of_no_pass)

lemma place_pass_trace:
  assumes "place_scan a rl iters pass c (log_event (EvPass pass) ctx) = Inr (sc, ctx1)"
  shows "trace (pass_ctx (place_pass a rl iters pass c ctx)) = trace ctx1
         \<or> (\<exists>t s. trace (pass_ctx (place_pass a rl iters pass c ctx)) = trace ctx1 @ [EvUnbind Ripup t s])"
  using assms
  by (auto simp: place_pass_def pass_ctx_def unbindBel_def log_event_def Let_def
           split: sum.splits option.splits prod.splits if_splits
           dest!: trace_bindBel trace_bindBel_err)

lemma place_loop_unfold:
  "place_loop a rl iters pass c ctx =
     (case place_pass a rl iters pass c ctx of
        Inl r \<Rightarrow> r
      | Inr (t, ctx2) \<Rightarrow> place_loop a rl (iters - 1) (Suc pass) t ctx2)"
  by (subst place_loop.simps) (simp add: place_pass_def split: sum.splits option.splits prod.splits)

lemma place_pass_again: "place_pass a rl iters pass c ctx = Inr (t, ctx2) \<Longrightarrow> iters \<noteq> 0"
  by (auto simp: place_pass_def split: sum.splits option.splits prod.splits if_splits)

lemma place_pass_true: "place_pass a rl iters pass c ctx = Inl (Inr (res, ctx')) \<Longrightarrow> res"
  by (auto simp: place_pass_def split: sum.splits option.splits prod.splits if_splits)

lemma place_loop_true: "place_loop a rl iters pass c ctx = Inr (res, ctx') \<Longrightarrow> res"
proof (induction iters arbitrary: pass c ctx)
  case 0
  then show ?case
    by (subst (asm) place_loop_unfold) (auto split: sum.splits prod.splits dest: place_pass_true place_pass_again)
next
  case (Suc n)
  from Suc.prems show ?case
    by (subst (asm) place_loop_unfold) (auto split: sum.splits prod.splits dest: place_pass_true Suc.IH)
qed

lemma place_pass_passes:
  "passes_of (trace (case place_pass a rl iters pass c ctx of Inl r \<Rightarrow> final_ctx r | Inr (t, ctx2) \<Rightarrow> ctx2))
     = passes_of (trace ctx) @ [pass]"
proof -
  let ?ctx0 = "log_event (EvPass pass) ctx"
  have p0: "passes_of (trace ?ctx0) = passes_of (trace ctx) @ [pass]"
    by (simp add: log_event_def)
  have sc: "passes_of (trace (final_ctx (place_scan a rl iters pass c ?ctx0))) = passes_of (trace ctx) @ [pass]"
    using extends_passes [OF place_scan_extends] p0 by simp
  have "passes_of (trace (pass_ctx (place_pass a rl iters pass c ctx))) = passes_of (trace ctx) @ [pass]"
  proof (cases "place_scan a rl iters pass c ?ctx0")
    case (Inl e)
    obtain er x where "e = (er, x)" by (cases e)
    with Inl sc show ?thesis by (simp add: place_pass_def pass_ctx_def)
  next
    case (Inr p)
    obtain s ctx1 where p: "p = (s, ctx1)" by (cases p)
    with Inr sc have "passes_of (trace ctx1) = passes_of (trace ctx) @ [pass]" by simp
    with place_pass_trace [of a rl iters pass c ctx s ctx1] Inr p show ?thesis by auto
  qed
  then show ?thesis by (simp add: pass_ctx_def)
qed

lemma place_loop_passes:
  "\<exists>m\<le>iters. passes_of (trace (final_ctx (place_loop a rl iters pass c ctx)))
               = passes_of (trace ctx) @ [pass..<pass + Suc m]"
proof (induction iters arbitrary: pass c ctx)
  case 0
  have "passes_of (trace (final_ctx (place_loop a rl 0 pass c ctx))) = passes_of (trace ctx) @ [pass..<pass + Suc 0]"
    using place_pass_passes [of a rl 0 pass c ctx]
    by (subst place_loop_unfold) (auto split: sum.splits prod.splits dest: place_pass_again)
  then show ?case by blast
next
  case (Suc n)
  show ?case
  proof (cases "place_pass a rl (Suc n) pass c ctx")
    case (Inl r)
    have "passes_of (trace (final_ctx (place_loop a rl (Suc n) pass c ctx))) = passes_of (trace ctx) @ [pass..<pass + Suc 0]"
      using place_pass_passes [of a rl "Suc n" pass c ctx] Inl
      by (subst place_loop_unfold) simp
    then show ?thesis by blast
  next
    case (Inr p)
    obtain t ctx2 where p: "p = (t, ctx2)" by (cases p)
    have t2: "passes_of (trace ctx2) = passes_of (trace ctx) @ [pass]"
      using place_pass_passes [of a rl "Suc n" pass c ctx] Inr p by simp
    from Suc.IH [of "Suc pass" t ctx2]
    obtain m where m: "m \<le> n"
      "passes_of (trace (final_ctx (place_loop a rl n (Suc pass) t ctx2)))
         = passes_of (trace ctx2) @ [Suc pass..<Suc pass + Suc m]" by blast
    have unf: "place_loop a rl (Suc n) pass c ctx = place_loop a rl n (Suc pass) t ctx2"
      using Inr p by (subst place_loop_unfold) simp
    have "[pass..<pass + Suc (Suc m)] = pass # [Suc pass..<Suc pass + Suc m]"
      by (simp add: upt_rec)
    with m t2 unf have "passes_of (trace (final_ctx (place_loop a rl (Suc n) pass c ctx))) = passes_of (trace ctx) @ [pass..<pass + Suc (Suc m)]"
      by simp
    moreover have "Suc m \<le> Suc n" using m(1) by simp
    ultimately show ?thesis by blast
  qed
qed

lemma scan_loop_event: "scan_event iters pass e \<Longrightarrow> loop_event (iters + pass) e"
  by (auto simp: scan_event_def loop_event_def split: event.splits option.splits)

lemma place_pass_extends:
  "extends (loop_event (iters + pass)) ctx
     (case place_pass a rl iters pass c ctx of Inl r \<Rightarrow> final_ctx r | Inr (t, ctx2) \<Rightarrow> ctx2)"
proof -
  let ?Q = "loop_event (iters + pass)"
  let ?ctx0 = "log_event (EvPass pass) ctx"
  have "extends ?Q ctx ?ctx0"
    by (rule extends_log) (simp add: loop_event_def)
  moreover have "extends ?Q ?ctx0 (final_ctx (place_scan a rl iters pass c ?ctx0))"
    by (rule extends_mono [OF place_scan_extends scan_loop_event])
  ultimately have sc: "extends ?Q ctx (final_ctx (place_scan a rl iters pass c ?ctx0))"
    by (rule extends_trans)
  have "extends ?Q ctx (pass_ctx (place_pass a rl iters pass c ctx))"
  proof (cases "place_scan a rl iters pass c ?ctx0")
    case (Inl e)
    obtain er x where "e = (er, x)" by (cases e)
    with Inl sc show ?thesis by (simp add: place_pass_def pass_ctx_def)
  next
    case (Inr p)
    obtain s ctx1 where p: "p = (s, ctx1)" by (cases p)
    with Inr sc have "extends ?Q ctx ctx1" by simp
    with place_pass_trace [of a rl iters pass c ctx s ctx1] Inr p show ?thesis
      by (auto simp: extends_def loop_event_def)
  qed
  then show ?thesis by (simp add: pass_ctx_def)
qed

lemma place_loop_extends:
  "extends (loop_event (iters + pass)) ctx (final_ctx (place_loop a rl iters pass c ctx))"
proof (induction iters arbitrary: pass c ctx)
  case 0
  show ?case
    using place_pass_extends [of 0 pass ctx a rl c]
    by (subst place_loop_unfold) (auto split: sum.splits prod.splits dest: place_pass_again)
next
  case (Suc n)
  show ?case
  proof (cases "place_pass a rl (Suc n) pass c ctx")
    case (Inl r)
    then show ?thesis
      using place_pass_extends [of "Suc n" pass ctx a rl c]
      by (subst place_loop_unfold) simp
  next
    case (Inr p)
    obtain t ctx2 where p: "p = (t, ctx2)" by (cases p)
    have "extends (loop_event (Suc n + pass)) ctx ctx2"
      using place_pass_extends [of "Suc n" pass ctx a rl c] Inr p by simp
    moreover have "extends (loop_event (Suc n + pass)) ctx2 (final_ctx (place_loop a rl n (Suc pass) t ctx2))"
      using Suc.IH [of "Suc pass" ctx2 t] by simp
    ultimately show ?thesis
      using Inr p by (subst place_loop_unfold) (simp add: extends_trans)
  qed
qed

subsection \<open>Two runs of the single-cell placer\<close>

text \<open>
  On \<open>ctx_contended\<close> the two cells displace each other on the only bel until the
  counter is used up: 26 passes and the fatal error. The metric is 0 throughout; in pass
  \<open>k \<le> 22\<close> the generator hands out \<open>k + 2\<close> and that is the cost, in the later
  passes the generator is not asked and the cost is 0.
\<close>

lemma contended_trace:
  "trace (final_ctx (place_single_cell (line_arch 1 (\<lambda>c b. True)) ctx_contended 0 True)) =
   concat (map (\<lambda>k. [EvPass k,
                       if k \<le> 22 then EvCandidate k 0 (Some (k + 2)) (int k + 2)
                       else EvCandidate k 0 None 0]
                    @ (if k < 26 then [EvUnbind Ripup (k mod 2) STRENGTH_WEAK] else [])) [1..<27])"
  by code_simp

lemma contended_error:
  "(case place_single_cell (line_arch 1 (\<lambda>c b. True)) ctx_contended 0 True of
      Inl (e, ctx') \<Rightarrow> e = RipupLimitExceeded 1 | Inr r \<Rightarrow> False)"
  by code_simp

lemma single_ok:
  "(case place_single_cell (line_arch 1 (\<lambda>c b. True)) ctx_single 0 True of
      Inl e \<Rightarrow> False | Inr (res, ctx') \<Rightarrow> cell_bel ctx' 0 = Some 0)"
  by code_simp

lemma contended_scan:
  "(case place_scan (line_arch 1 (\<lambda>c b. True)) True 0 1 0 (log_event (EvPass 1) ctx_contended) of
      Inl e \<Rightarrow> False | Inr (sc, ctx1) \<Rightarrow> best_bel sc = None)"
  by code_simp

subsection \<open>The result of \<^verbatim>\<open>place_single_cell\<close>\<close>

text \<open>
  C10. Whenever \<^verbatim>\<open>place_single_cell\<close> returns, it returns true: the value false is
  never produced, and a cell that cannot be placed ends the run through a fatal error.
\<close>

theorem place_single_cell_returns_true:
  "place_single_cell a ctx c require_legality = Inr (res, ctx') \<Longrightarrow> res = True"
  unfolding place_single_cell_def by (auto dest: place_loop_true)

theorem place_single_cell_returns_true_witness:
  "\<exists>ctx'. place_single_cell (line_arch 1 (\<lambda>c b. True)) ctx_single 0 True = Inr (True, ctx')"
proof -
  from single_ok obtain res ctx' where
    r: "place_single_cell (line_arch 1 (\<lambda>c b. True)) ctx_single 0 True = Inr (res, ctx')"
    by (auto split: sum.splits)
  from place_single_cell_returns_true [OF r] r show ?thesis by blast
qed

subsection \<open>The bound on the outer loop\<close>

lemma extends_passes_new:
  assumes "extends Q ctx ctx'" and "passes_of (trace ctx') = passes_of (trace ctx) @ ps"
  shows "passes_of (new_events ctx ctx') = ps"
  using assms by (auto simp: extends_def new_events_def)

text \<open>
  C7. The outer loop of \<^verbatim>\<open>place_single_cell\<close> runs at most 26 times: the passes of a
  call are numbered 1 to \<open>m\<close> with \<open>m \<le> 26\<close>. With the counter \<open>iters\<close> at 0, a pass
  that finds no free bel ends in the fatal error "ripup iteration limit exceeded" and the
  loop does not go round again.
\<close>

theorem place_single_cell_pass_limit:
  "(\<exists>m. 1 \<le> m \<and> m \<le> 26 \<and>
        passes_of (new_events ctx (final_ctx (place_single_cell a ctx c require_legality))) = [1..<Suc m])
   \<and> (place_scan a require_legality 0 p c' (log_event (EvPass p) ctx0) = Inr (sc, ctx1) \<and> best_bel sc = None
        \<longrightarrow> place_loop a require_legality 0 p c' ctx0 = Inl (RipupLimitExceeded c', ctx1))"
proof
  from place_loop_passes [of 25 a require_legality 1 c ctx]
  obtain m where m: "m \<le> 25"
    "passes_of (trace (final_ctx (place_loop a require_legality 25 1 c ctx)))
       = passes_of (trace ctx) @ [1..<1 + Suc m]" by blast
  have "passes_of (new_events ctx (final_ctx (place_loop a require_legality 25 1 c ctx))) = [1..<1 + Suc m]"
    by (rule extends_passes_new [OF place_loop_extends m(2)])
  then have "passes_of (new_events ctx (final_ctx (place_single_cell a ctx c require_legality))) = [1..<Suc (Suc m)]"
    by (simp add: place_single_cell_def)
  moreover have "1 \<le> Suc m" "Suc m \<le> 26" using m(1) by simp_all
  ultimately show "\<exists>m. 1 \<le> m \<and> m \<le> 26 \<and>
        passes_of (new_events ctx (final_ctx (place_single_cell a ctx c require_legality))) = [1..<Suc m]"
    by blast
next
  show "place_scan a require_legality 0 p c' (log_event (EvPass p) ctx0) = Inr (sc, ctx1) \<and> best_bel sc = None
        \<longrightarrow> place_loop a require_legality 0 p c' ctx0 = Inl (RipupLimitExceeded c', ctx1)"
    by (subst place_loop.simps) simp
qed

theorem place_single_cell_pass_limit_witness:
  "(\<exists>sc ctx1. place_scan (line_arch 1 (\<lambda>c b. True)) True 0 1 0 (log_event (EvPass 1) ctx_contended) = Inr (sc, ctx1)
       \<and> best_bel sc = None
       \<and> place_loop (line_arch 1 (\<lambda>c b. True)) True 0 1 0 ctx_contended = Inl (RipupLimitExceeded 0, ctx1))
   \<and> passes_of (new_events ctx_contended
        (final_ctx (place_single_cell (line_arch 1 (\<lambda>c b. True)) ctx_contended 0 True))) = [1..<27]"
proof
  from contended_scan obtain sc ctx1 where
    s: "place_scan (line_arch 1 (\<lambda>c b. True)) True 0 1 0 (log_event (EvPass 1) ctx_contended) = Inr (sc, ctx1)"
       "best_bel sc = None"
    by (auto split: sum.splits)
  from place_single_cell_pass_limit [of ctx_contended "line_arch 1 (\<lambda>c b. True)" 0 True 1 0 ctx_contended sc ctx1] s
  have "place_loop (line_arch 1 (\<lambda>c b. True)) True 0 1 0 ctx_contended = Inl (RipupLimitExceeded 0, ctx1)"
    by blast
  with s show "\<exists>sc ctx1. place_scan (line_arch 1 (\<lambda>c b. True)) True 0 1 0 (log_event (EvPass 1) ctx_contended) = Inr (sc, ctx1)
       \<and> best_bel sc = None
       \<and> place_loop (line_arch 1 (\<lambda>c b. True)) True 0 1 0 ctx_contended = Inl (RipupLimitExceeded 0, ctx1)"
    by blast
next
  show "passes_of (new_events ctx_contended
        (final_ctx (place_single_cell (line_arch 1 (\<lambda>c b. True)) ctx_contended 0 True))) = [1..<27]"
    unfolding new_events_def contended_trace by code_simp
qed

subsection \<open>The passes with jitter\<close>

text \<open>
  C8, the claim as stated fails: the rule "jitter in passes 1 to 21 and in no later pass"
  is broken by the run on \<open>ctx_contended\<close>, where the cost of the candidate of pass 22
  is the metric 0 plus the value 24 of the generator.
\<close>

theorem jitter_in_pass_22:
  "\<not> list_all (jitter_rule 21)
       (new_events ctx_contended
          (final_ctx (place_single_cell (line_arch 1 (\<lambda>c b. True)) ctx_contended 0 True)))"
  unfolding new_events_def contended_trace by code_simp

lemma loop_event_jitter: "loop_event 26 e \<Longrightarrow> jitter_rule 22 e"
  by (auto simp: loop_event_def jitter_rule_def split: event.splits option.splits)

lemma wired_metric:
  "get_cell_metric_at_bel (line_arch 3 (\<lambda>c b. True)) ctx_wired 0 0 COST = Inr 2"
  by code_simp

lemma wired_trace:
  "new_events ctx_wired (final_ctx (place_single_cell (line_arch 3 (\<lambda>c b. True)) ctx_wired 0 True))
     = [EvPass 1, EvCandidate 1 2 (Some 3) 5, EvCandidate 1 1 (Some 4) 5, EvCandidate 1 0 (Some 5) 5]"
  by code_simp

text \<open>
  C8, amended: a value drawn by \<^verbatim>\<open>rng(25)\<close>, which is below 25, is added to the cost
  of each candidate bel in exactly the first 22 passes of the outer loop (\<open>iters\<close> from 25
  down to 4), and in no later pass. In a run of \<^verbatim>\<open>place_single_cell\<close>, every cost
  that \<open>candidate_cost\<close> returns in a pass \<open>k \<le> 22\<close> is the metric of the cell at the
  bel plus a value below 25 that the generator handed out during the call, and every cost
  it returns in a later pass is the metric itself, the generator not being asked. For
  \<open>candidate_cost\<close> alone: where the metric is \<open>m\<close>, it returns \<open>m\<close> plus the next
  value of the generator, and moves the generator on, if \<open>iters\<close> is at least 4, and it
  returns \<open>m\<close> and the context as it was otherwise.
\<close>

theorem place_single_cell_jitter:
  "list_all (jitter_rule 22) (new_events ctx (final_ctx (place_single_cell a ctx c require_legality)))
   \<and> (get_cell_metric_at_bel a ctx0 c' b COST = Inr m \<longrightarrow>
        candidate_cost a iters c' b ctx0 =
          (if 4 \<le> iters
           then Inr (m + int (rng_stream a (rng_pos ctx0) mod 25), ctx0\<lparr>rng_pos := Suc (rng_pos ctx0)\<rparr>)
           else Inr (m, ctx0))
        \<and> rng_stream a (rng_pos ctx0) mod 25 < 25)"
proof
  have "extends (loop_event (25 + 1)) ctx (final_ctx (place_loop a require_legality 25 1 c ctx))"
    by (rule place_loop_extends)
  then have "extends (jitter_rule 22) ctx (final_ctx (place_single_cell a ctx c require_legality))"
    by (simp add: place_single_cell_def extends_mono [OF _ loop_event_jitter])
  then show "list_all (jitter_rule 22)
      (new_events ctx (final_ctx (place_single_cell a ctx c require_legality)))"
    by (rule extends_new_events)
next
  show "get_cell_metric_at_bel a ctx0 c' b COST = Inr m \<longrightarrow>
        candidate_cost a iters c' b ctx0 =
          (if 4 \<le> iters
           then Inr (m + int (rng_stream a (rng_pos ctx0) mod 25), ctx0\<lparr>rng_pos := Suc (rng_pos ctx0)\<rparr>)
           else Inr (m, ctx0))
        \<and> rng_stream a (rng_pos ctx0) mod 25 < 25"
    by (simp add: candidate_cost_def rng_def)
qed

theorem place_single_cell_jitter_witness:
  "get_cell_metric_at_bel (line_arch 3 (\<lambda>c b. True)) ctx_wired 0 0 COST = Inr 2
   \<and> candidate_cost (line_arch 3 (\<lambda>c b. True)) 25 0 0 ctx_wired = Inr (5, ctx_wired\<lparr>rng_pos := 1\<rparr>)
   \<and> candidate_cost (line_arch 3 (\<lambda>c b. True)) 3 0 0 ctx_wired = Inr (2, ctx_wired)
   \<and> list_all (jitter_rule 22)
        (new_events ctx_contended
           (final_ctx (place_single_cell (line_arch 1 (\<lambda>c b. True)) ctx_contended 0 True)))
   \<and> EvCandidate 22 0 (Some 24) 24 \<in> set (new_events ctx_contended
        (final_ctx (place_single_cell (line_arch 1 (\<lambda>c b. True)) ctx_contended 0 True)))
   \<and> EvCandidate 23 0 None 0 \<in> set (new_events ctx_contended
        (final_ctx (place_single_cell (line_arch 1 (\<lambda>c b. True)) ctx_contended 0 True)))
   \<and> list_all (jitter_rule 22)
        (new_events ctx_wired
           (final_ctx (place_single_cell (line_arch 3 (\<lambda>c b. True)) ctx_wired 0 True)))
   \<and> EvCandidate 1 2 (Some 3) 5 \<in> set (new_events ctx_wired
        (final_ctx (place_single_cell (line_arch 3 (\<lambda>c b. True)) ctx_wired 0 True)))"
proof -
  have pos: "rng_pos ctx_wired = 0" by (simp add: ctx_wired_def)
  have gen: "rng_stream (line_arch 3 (\<lambda>c b. True)) 0 = 3" by (simp add: line_arch_def)
  have "EvCandidate 22 0 (Some 24) 24 \<in> set (new_events ctx_contended
        (final_ctx (place_single_cell (line_arch 1 (\<lambda>c b. True)) ctx_contended 0 True)))"
    unfolding new_events_def contended_trace by code_simp
  moreover have "EvCandidate 23 0 None 0 \<in> set (new_events ctx_contended
        (final_ctx (place_single_cell (line_arch 1 (\<lambda>c b. True)) ctx_contended 0 True)))"
    unfolding new_events_def contended_trace by code_simp
  moreover have "EvCandidate 1 2 (Some 3) 5 \<in> set (new_events ctx_wired
        (final_ctx (place_single_cell (line_arch 3 (\<lambda>c b. True)) ctx_wired 0 True)))"
    unfolding wired_trace by simp
  moreover have "ctx_wired\<lparr>rng_pos := 0\<rparr> = ctx_wired" by (simp add: ctx_wired_def)
  ultimately show ?thesis
    using wired_metric pos gen
      place_single_cell_jitter [of ctx_contended "line_arch 1 (\<lambda>c b. True)" 0 True
         ctx_wired 0 0 2 25]
      place_single_cell_jitter [of ctx_wired "line_arch 3 (\<lambda>c b. True)" 0 True
         ctx_wired 0 0 2 25]
      place_single_cell_jitter [of ctx_wired "line_arch 3 (\<lambda>c b. True)" 0 True
         ctx_wired 0 0 2 3]
    by simp
qed

subsection \<open>The range of the search on an unconstrained z axis\<close>

text \<open>
  The bounds of the three searches for an axis without constraint, for a child and for a
  root: the grid dimension less one on x and y, the tile depth itself on z.
\<close>

lemma unconstr_search_bounds:
  assumes "constr_x cell = None" and "constr_y cell = None" and "constr_z cell = None"
  shows "child_searches a loc cell =
           (ids_range (loc_x loc) 0 (getGridDimX a - 1),
            ids_range (loc_y loc) 0 (getGridDimY a - 1),
            ids_range (loc_z loc) 0 (getTileDimZ a (loc_x loc) (loc_y loc)))"
    and "root_searches a loc cell =
           (ids_range (loc_x loc) 0 (getGridDimX a - 1),
            ids_range (loc_y loc) 0 (getGridDimY a - 1),
            ids_range (loc_z loc) 0 (getTileDimZ a (loc_x loc) (loc_y loc)))"
  using assms by (simp_all add: child_searches_def root_searches_def)

text \<open>
  C3. For a child without constraints tried below a parent at (0, 0, 0) on a device whose
  tiles hold one bel (\<^verbatim>\<open>getTileDimZ\<close> is 1), the x and y axes are searched over 0 to
  dim - 1, which is the single value 0, but the z axis is searched over 0 and 1: the
  upper bound passed at line 246 is \<^verbatim>\<open>getTileDimZ(x, y)\<close>, not
  \<^verbatim>\<open>getTileDimZ(x, y) - 1\<close>.
\<close>

theorem unconstr_z_search_past_tile_depth:
  "getTileDimZ (line_arch 1 (\<lambda>c b. True)) 0 0 = 1
   \<and> searches_locs (child_searches (line_arch 1 (\<lambda>c b. True))
         \<lparr>loc_x = 0, loc_y = 0, loc_z = 0\<rparr> free_cell)
       = [\<lparr>loc_x = 0, loc_y = 0, loc_z = 0\<rparr>, \<lparr>loc_x = 0, loc_y = 0, loc_z = 1\<rparr>]"
  by code_simp

subsection \<open>Ripped cells that are legalised and then handed to the placer\<close>

text \<open>
  The run of the legaliser on \<open>ctx_chains\<close>. Cell 0 moves to bel 0 and rips up cell 1.
  The chain of cell 1 is then legalised on bels 1 and 2 with strength LOCKED. Cell 1 is
  still in \<^verbatim>\<open>rippedCells\<close>, so \<^verbatim>\<open>place_single_cell\<close> is called for it and asks
  the device to unbind its bel (line 116); the assertion of the device fails and the run
  ends there.
\<close>

lemma chains_run:
  "result_error (legalise_relative_constraints (line_arch 4 (\<lambda>c b. True)) ctx_chains)
     = Some AssertionFailed
   \<and> trace (final_ctx (legalise_relative_constraints (line_arch 4 (\<lambda>c b. True)) ctx_chains))
       = [EvUnbind OwnCell 0 STRENGTH_WEAK, EvUnbind Ripup 1 STRENGTH_WEAK,
          EvUnbind OwnCell 2 STRENGTH_WEAK, EvPass 1, EvUnbind OwnCell 1 STRENGTH_LOCKED]
   \<and> map (cell_bel (final_ctx (legalise_relative_constraints (line_arch 4 (\<lambda>c b. True)) ctx_chains)))
         [0, 1, 2] = [Some 0, Some 1, Some 2]
   \<and> map (cell_strength (final_ctx (legalise_relative_constraints (line_arch 4 (\<lambda>c b. True)) ctx_chains)))
         [0, 1, 2] = [STRENGTH_LOCKED, STRENGTH_LOCKED, STRENGTH_LOCKED]"
  by code_simp

text \<open>
  C6. In that run the device is asked to unbind the bel of a cell of strength LOCKED:
  the bel of cell 1, by the call of \<^verbatim>\<open>place_single_cell\<close> at line 420.
\<close>

theorem locked_cell_unbound:
  "EvUnbind OwnCell 1 STRENGTH_LOCKED
     \<in> set (trace (final_ctx (legalise_relative_constraints (line_arch 4 (\<lambda>c b. True)) ctx_chains)))"
  using chains_run by simp

subsection \<open>The legality flag for ripped cells\<close>



subsection \<open>Ripup only against cells below STRONG\<close>

lemma candidate_ripup_weak: "candidate_event iters pass e \<Longrightarrow> ripup_weak e"
  by (auto simp: candidate_event_def ripup_weak_def split: event.splits unbind_site.splits)

lemma bel_to_cell_unbound [simp]:
  "bel_to_cell (unbound site b ctx) = (bel_to_cell ctx)(b := None)"
  by (auto simp: unbound_def split: option.splits)

lemma cell_bel_unbound:
  "cell_bel (unbound site b ctx) c = (if bel_to_cell ctx b = Some c then None else cell_bel ctx c)"
  by (auto simp: unbound_def cell_bel_def map_of_map_entry split: option.splits)

lemma bel_to_cell_bindBel:
  "bindBel b c s ctx = Inr ctx' \<Longrightarrow> bel_to_cell ctx' = (bel_to_cell ctx)(b \<mapsto> c)"
  by (auto simp: bindBel_def split: if_splits)

lemma cell_bel_bindBel:
  "bindBel b c s ctx = Inr ctx' \<Longrightarrow> cell_bel ctx' c' = (if c' = c then Some b else cell_bel ctx c')"
  by (auto simp: bindBel_def cell_bel_def map_of_map_entry split: if_splits option.splits)

lemma consistent_unbound:
  assumes "consistent ctx"
  shows "consistent (unbound mover b ctx)"
  unfolding consistent_def
proof (intro allI)
  fix b' c
  show "bel_to_cell (unbound mover b ctx) b' = Some c
        \<longleftrightarrow> cell_bel (unbound mover b ctx) c = Some b'"
  proof (cases "bel_to_cell ctx b = Some c")
    case True
    with assms show ?thesis
      by (auto simp: consistent_def cell_bel_unbound)
  next
    case False
    with assms have "cell_bel ctx c \<noteq> Some b" by (simp add: consistent_def)
    with False assms show ?thesis
      by (auto simp: consistent_def cell_bel_unbound)
  qed
qed

lemma not_bound_unbound: "not_bound c ctx \<Longrightarrow> not_bound c (unbound mover b ctx)"
  by (auto simp: not_bound_def)

lemma not_bound_after_unbind:
  assumes "consistent ctx" and "cell_bel ctx c = Some b"
  shows "not_bound c (unbound mover b ctx)"
  unfolding not_bound_def
proof (intro allI notI)
  fix b'
  assume "bel_to_cell (unbound mover b ctx) b' = Some c"
  then have ne: "b' \<noteq> b" and bc: "bel_to_cell ctx b' = Some c"
    by (auto split: if_splits)
  from assms(1) bc have "cell_bel ctx c = Some b'" by (simp add: consistent_def)
  with assms(2) ne show False by simp
qed

lemma consistent_unbindBel: "consistent ctx \<Longrightarrow> unbindBel mover b ctx = Inr ctx' \<Longrightarrow> consistent ctx'"
  by (auto dest!: unbindBel_Inr intro: consistent_unbound)

lemma not_bound_unbindBel: "not_bound c ctx \<Longrightarrow> unbindBel mover b ctx = Inr ctx' \<Longrightarrow> not_bound c ctx'"
  by (auto dest!: unbindBel_Inr intro: not_bound_unbound)

lemma not_bound_unplaced: "consistent ctx \<Longrightarrow> cell_bel ctx c = None \<Longrightarrow> not_bound c ctx"
  by (auto simp: not_bound_def consistent_def)

lemma consistent_bindBel:
  assumes "consistent ctx" and "not_bound c ctx" and "bindBel b c s ctx = Inr ctx'"
  shows "consistent ctx'"
  unfolding consistent_def
proof (intro allI)
  fix b' c'
  from assms(3) have free: "bel_to_cell ctx b = None"
    by (auto simp: bindBel_def split: if_splits)
  from assms(1,2) have unplaced: "cell_bel ctx c = None"
    by (cases "cell_bel ctx c") (auto simp: consistent_def not_bound_def)
  have nobody: "cell_bel ctx c' \<noteq> Some b"
  proof
    assume "cell_bel ctx c' = Some b"
    with assms(1) have "bel_to_cell ctx b = Some c'" by (simp add: consistent_def)
    with free show False by simp
  qed
  from assms(1) have eq: "bel_to_cell ctx b' = Some c' \<longleftrightarrow> cell_bel ctx c' = Some b'"
    by (simp add: consistent_def)
  show "bel_to_cell ctx' b' = Some c' \<longleftrightarrow> cell_bel ctx' c' = Some b'"
    using free unplaced nobody eq
    by (auto simp: bel_to_cell_bindBel [OF assms(3)] cell_bel_bindBel [OF assms(3)])
qed

lemma not_bound_bindBel:
  "not_bound c' ctx \<Longrightarrow> c' \<noteq> c \<Longrightarrow> bindBel b c s ctx = Inr ctx' \<Longrightarrow> not_bound c' ctx'"
  by (auto simp: not_bound_def bel_to_cell_bindBel)

lemma not_bound_unbind_own: "consistent ctx \<Longrightarrow> unbind_own c ctx = Inr ctx1 \<Longrightarrow> not_bound c ctx1"
  by (auto simp: unbind_own_def not_bound_after_unbind not_bound_unplaced
           split: option.splits dest!: unbindBel_Inr)

lemma consistent_unbind_own: "consistent ctx \<Longrightarrow> unbind_own c ctx = Inr ctx1 \<Longrightarrow> consistent ctx1"
  by (auto simp: unbind_own_def split: option.splits intro: consistent_unbindBel)

lemma same_placement_refl [simp]: "same_placement ctx ctx"
  by (simp add: same_placement_def)

lemma same_placement_trans: "same_placement ctx ctx1 \<Longrightarrow> same_placement ctx1 ctx2 \<Longrightarrow> same_placement ctx ctx2"
  by (simp add: same_placement_def)

lemma same_placement_consistent: "same_placement ctx ctx' \<Longrightarrow> consistent ctx' = consistent ctx"
  by (simp add: same_placement_def consistent_def cell_bel_def)

lemma same_placement_not_bound: "same_placement ctx ctx' \<Longrightarrow> not_bound c ctx' = not_bound c ctx"
  by (simp add: same_placement_def not_bound_def)

lemma logged_cost_same:
  "logged_cost a iters pass c b ctx = Inr (w, ctx') \<Longrightarrow> same_placement ctx ctx'"
  by (auto simp: logged_cost_def candidate_cost_def same_placement_def rng_def log_event_def
           split: sum.splits if_splits prod.splits)

lemma victim_ok_same: "same_placement ctx ctx' \<Longrightarrow> victim_ok ctx' sc = victim_ok ctx sc"
  by (simp add: same_placement_def victim_ok_def cell_strength_def)

lemma cell_strength_lookup: "map_of (cells ctx) t = Some ci \<Longrightarrow> cell_strength ctx t = belStrength ci"
  by (simp add: cell_strength_def)

lemma victim_ok_best [simp]:
  "victim_ok ctx (sc\<lparr>best_wirelen := w, best_bel := bb\<rparr>) = victim_ok ctx sc"
  by (simp add: victim_ok_def)

lemma victim_ok_new:
  "bel_to_cell ctx b = Some t \<Longrightarrow> map_of (cells ctx) t = Some ci
   \<Longrightarrow> strength_val (belStrength ci) < strength_val STRENGTH_STRONG
   \<Longrightarrow> victim_ok ctx (sc\<lparr>best_ripup_wirelen := w, ripup_bel := Some b, ripup_target := Some t\<rparr>)"
  by (simp add: victim_ok_def cell_strength_lookup)

lemma scan_bel_victim:
  assumes r: "scan_bel a rl iters pass c tt b sc ctx = Inr (sc', ctx')" and v: "victim_ok ctx sc"
  shows "same_placement ctx ctx' \<and> victim_ok ctx' sc'"
proof (cases "getBelType a b = tt \<and> (\<not> rl \<or> isValidBelForCell a ctx c b)")
  case False
  with r have "sc' = sc \<and> ctx' = ctx" by (auto simp: scan_bel_def)
  with v show ?thesis by simp
next
  case True
  note filt = True
  obtain w ctx1 where cc: "logged_cost a iters pass c b ctx = Inr (w, ctx1)"
  proof (cases "logged_cost a iters pass c b ctx")
    case (Inl e)
    with r filt have False by (auto simp: scan_bel_def split: if_splits)
    then show ?thesis ..
  next
    case (Inr p)
    then show ?thesis using that by (cases p) simp
  qed
  have sp: "same_placement ctx ctx1" by (rule logged_cost_same [OF cc])
  then have eqs: "cells ctx1 = cells ctx" "bel_to_cell ctx1 = bel_to_cell ctx"
    by (simp_all add: same_placement_def)
  have v1: "victim_ok ctx1 sc" using v by (simp add: victim_ok_same [OF sp])
  show ?thesis
  proof (cases "checkBelAvail ctx b")
    case True
    with r filt cc have "ctx' = ctx1" "sc' = sc \<or> sc' = sc\<lparr>best_wirelen := w, best_bel := Some b\<rparr>"
      by (auto simp: scan_bel_def split: if_splits)
    with sp v1 show ?thesis by auto
  next
    case False
    show ?thesis
    proof (cases "w \<le> best_ripup_wirelen sc")
      case False
      with r filt cc \<open>\<not> checkBelAvail ctx b\<close> have "ctx' = ctx1 \<and> sc' = sc"
        by (auto simp: scan_bel_def)
      with sp v1 show ?thesis by simp
    next
      case True
      with r filt cc \<open>\<not> checkBelAvail ctx b\<close> obtain t ci where
        t: "bel_to_cell ctx1 b = Some t" "map_of (cells ctx1) t = Some ci"
        and res: "(if strength_val (belStrength ci) < strength_val STRENGTH_STRONG
                   then Inr (sc\<lparr>best_ripup_wirelen := w, ripup_bel := Some b, ripup_target := Some t\<rparr>, ctx1)
                   else Inr (sc, ctx1)) = (Inr (sc', ctx') :: (scan \<times> Context) result)"
        by (auto simp: scan_bel_def getBoundBelCell_def split: option.splits)
      show ?thesis
      proof (cases "strength_val (belStrength ci) < strength_val STRENGTH_STRONG")
        case True
        with res have "ctx' = ctx1"
          "sc' = sc\<lparr>best_ripup_wirelen := w, ripup_bel := Some b, ripup_target := Some t\<rparr>"
          by simp_all
        with sp victim_ok_new [OF t True] show ?thesis by simp
      next
        case False
        with res have "ctx' = ctx1" "sc' = sc" by simp_all
        with sp v1 show ?thesis by simp
      qed
    qed
  qed
qed

lemma scan_bels_victim:
  "scan_bels a rl iters pass c tt bs sc ctx = Inr (sc', ctx') \<Longrightarrow> victim_ok ctx sc
   \<Longrightarrow> same_placement ctx ctx' \<and> victim_ok ctx' sc'"
proof (induction bs arbitrary: sc ctx)
  case Nil
  then show ?case by simp
next
  case (Cons b bs)
  from Cons.prems(1) obtain sc1 ctx1 where
    s1: "scan_bel a rl iters pass c tt b sc ctx = Inr (sc1, ctx1)"
    and s2: "scan_bels a rl iters pass c tt bs sc1 ctx1 = Inr (sc', ctx')"
    by (auto split: sum.splits)
  from scan_bel_victim [OF s1 Cons.prems(2)] have "same_placement ctx ctx1" "victim_ok ctx1 sc1"
    by simp_all
  with Cons.IH [OF s2] show ?case by (auto intro: same_placement_trans)
qed

lemma place_scan_victim:
  assumes "place_scan a rl iters pass c ctx = Inr (sc, ctx1)" and "consistent ctx"
  shows "consistent ctx1 \<and> not_bound c ctx1 \<and> victim_ok ctx1 sc"
proof -
  from assms(1) obtain ci :: CellInfo and ctx0 where
    u: "unbind_own c ctx = Inr ctx0" and
    s: "scan_bels a rl iters pass c (belTypeFromId a (cell_type ci)) (getBels a) (scan_init a) ctx0
          = Inr (sc, ctx1)"
    by (auto simp: place_scan_def Let_def split: option.splits sum.splits)
  have "victim_ok ctx0 (scan_init a)"
    by (simp add: victim_ok_def scan_init_def)
  from scan_bels_victim [OF s this]
  have sp: "same_placement ctx0 ctx1" and v: "victim_ok ctx1 sc" by simp_all
  from sp have "consistent ctx1"
    by (simp add: same_placement_consistent consistent_unbind_own [OF assms(2) u])
  moreover from sp have "not_bound c ctx1"
    by (simp add: same_placement_not_bound not_bound_unbind_own [OF assms(2) u])
  ultimately show ?thesis using v by simp
qed

lemma extends_ripup_unbind:
  assumes "bel_to_cell ctx b = Some t"
    and "strength_val (cell_strength ctx t) < strength_val STRENGTH_STRONG"
  shows "extends ripup_weak ctx (unbound None b ctx)"
  using assms by (simp add: extends_def unbound_def ripup_weak_def)

lemma consistent_log_event [simp]: "consistent (log_event e ctx) = consistent ctx"
  by (simp add: consistent_def log_event_def cell_bel_def)

lemma extends_own_unbind:
  assumes "consistent ctx" and "cell_bel ctx c = Some b"
  shows "extends ripup_weak ctx (ctx_of (unbindBel (Some c) b ctx))"
proof -
  from assms have "bel_to_cell ctx b = Some c" by (simp add: consistent_def)
  then show ?thesis
    by (simp add: extends_def unbindBel_def log_event_def Let_def ripup_weak_def)
qed

lemma extends_unbind_own_cell: "consistent ctx \<Longrightarrow> extends ripup_weak ctx (ctx_of (unbind_own c ctx))"
  by (simp add: unbind_own_def extends_own_unbind split: option.splits)

lemma place_scan_ripup:
  assumes "consistent ctx"
  shows "extends ripup_weak ctx (final_ctx (place_scan a rl iters pass c ctx))"
proof (cases "map_of (cells ctx) c")
  case None
  then show ?thesis by (simp add: place_scan_def)
next
  case (Some ci)
  have sc: "\<And>tt x. extends ripup_weak x
        (final_ctx (scan_bels a rl iters pass c tt (getBels a) (scan_init a) x))"
    by (rule extends_mono [OF scan_bels_extends candidate_ripup_weak])
  note own = extends_unbind_own_cell [OF assms, of c]
  show ?thesis
  proof (cases "unbind_own c ctx")
    case (Inl e)
    obtain er x where "e = (er, x)" by (cases e)
    with own Inl Some show ?thesis by (simp add: place_scan_def)
  next
    case (Inr ctx1)
    with own have "extends ripup_weak ctx ctx1" by simp
    from extends_trans [OF this sc] Inr Some show ?thesis
      by (simp add: place_scan_def Let_def)
  qed
qed

lemma place_pass_safe:
  assumes con: "consistent ctx"
  shows "extends ripup_weak ctx (pass_ctx (place_pass a rl iters pass c ctx))
         \<and> pass_consistent (place_pass a rl iters pass c ctx)"
proof -
  let ?ctx0 = "log_event (EvPass pass) ctx"
  have e0: "extends ripup_weak ctx ?ctx0"
    by (rule extends_log) (simp add: ripup_weak_def)
  have "extends ripup_weak ?ctx0 (final_ctx (place_scan a rl iters pass c ?ctx0))"
    by (rule place_scan_ripup) (simp add: con)
  with e0 have e1: "extends ripup_weak ctx (final_ctx (place_scan a rl iters pass c ?ctx0))"
    by (rule extends_trans)
  show ?thesis
  proof (cases "place_scan a rl iters pass c ?ctx0")
    case (Inl e)
    obtain er x where "e = (er, x)" by (cases e)
    with Inl e1 show ?thesis
      by (simp add: place_pass_def pass_ctx_def pass_consistent_def)
  next
    case (Inr p)
    obtain sc ctx1 where p: "p = (sc, ctx1)" by (cases p)
    from Inr p have scan: "place_scan a rl iters pass c ?ctx0 = Inr (sc, ctx1)" by simp
    from e1 scan have ex1: "extends ripup_weak ctx ctx1" by simp
    from place_scan_victim [OF scan] con
    have c1: "consistent ctx1" and nb: "not_bound c ctx1" and vic: "victim_ok ctx1 sc" by simp_all
    show ?thesis
    proof (cases "best_bel sc")
      case (Some bb)
      show ?thesis
      proof (cases "bindBel bb c STRENGTH_WEAK ctx1")
        case (Inl e)
        then obtain er x where e: "e = (er, x)" by (cases e)
        with Inl have "x = ctx1" by (auto dest: trace_bindBel_err)
        with scan Some Inl e ex1 show ?thesis
          by (simp add: place_pass_def pass_ctx_def pass_consistent_def)
      next
        case (Inr ctx2)
        from consistent_bindBel [OF c1 nb Inr] have "consistent ctx2" .
        moreover from ex1 have "extends ripup_weak ctx ctx2" by (simp add: extends_bindBel [OF Inr])
        ultimately show ?thesis using scan Some Inr
          by (simp add: place_pass_def pass_ctx_def pass_consistent_def)
      qed
    next
      case None
      note nobest = None
      show ?thesis
      proof (cases "iters = 0")
        case True
        with scan nobest ex1 show ?thesis
          by (simp add: place_pass_def pass_ctx_def pass_consistent_def)
      next
        case False
        note it = False
        show ?thesis
        proof (cases "ripup_bel sc")
          case None
          with scan nobest it ex1 show ?thesis
            by (simp add: place_pass_def pass_ctx_def pass_consistent_def)
        next
          case (Some rb)
          with vic obtain t where t: "ripup_target sc = Some t" "bel_to_cell ctx1 rb = Some t"
            "strength_val (cell_strength ctx1 t) < strength_val STRENGTH_STRONG"
            by (auto simp: victim_ok_def)
          from c1 t(2) have tb: "cell_bel ctx1 t = Some rb" by (simp add: consistent_def)
          let ?ctxu = "unbound None rb ctx1"
          have ub: "unbindBel None rb ctx1 = Inr ?ctxu"
            by (rule unbindBel_below_strong [OF t(2) t(3)])
          have exu: "extends ripup_weak ctx ?ctxu"
            by (rule extends_trans [OF ex1 extends_ripup_unbind [OF t(2) t(3)]])
          have cu: "consistent ?ctxu" by (rule consistent_unbound [OF c1])
          have nbu: "not_bound c ?ctxu" by (rule not_bound_unbound [OF nb])
          show ?thesis
          proof (cases "bindBel rb c STRENGTH_WEAK ?ctxu")
            case (Inl e)
            then obtain er x where e: "e = (er, x)" by (cases e)
            with Inl have "x = ?ctxu" by (auto dest: trace_bindBel_err)
            with scan nobest it Some t(1) tb ub Inl e exu show ?thesis
              by (simp add: place_pass_def pass_ctx_def pass_consistent_def)
          next
            case (Inr ctx2)
            from consistent_bindBel [OF cu nbu Inr] have "consistent ctx2" .
            moreover from exu have "extends ripup_weak ctx ctx2" by (simp add: extends_bindBel [OF Inr])
            ultimately show ?thesis using scan nobest it Some t(1) tb ub Inr
              by (simp add: place_pass_def pass_ctx_def pass_consistent_def)
          qed
        qed
      qed
    qed
  qed
qed

lemma place_loop_safe:
  "consistent ctx \<Longrightarrow>
   extends ripup_weak ctx (final_ctx (place_loop a rl iters pass c ctx))
   \<and> result_consistent (place_loop a rl iters pass c ctx)"
proof (induction iters arbitrary: pass c ctx)
  case 0
  from place_pass_safe [OF 0, of a rl 0 pass c] show ?case
    by (subst (1 2) place_loop_unfold)
       (auto simp: pass_ctx_def pass_consistent_def result_consistent_def
             split: sum.splits prod.splits dest: place_pass_again)
next
  case (Suc n)
  note ps = place_pass_safe [OF Suc.prems, of a rl "Suc n" pass c]
  show ?case
  proof (cases "place_pass a rl (Suc n) pass c ctx")
    case (Inl r)
    with ps show ?thesis
      by (subst (1 2) place_loop_unfold)
         (auto simp: pass_ctx_def pass_consistent_def result_consistent_def split: sum.splits prod.splits)
  next
    case (Inr p)
    obtain t ctx2 where p: "p = (t, ctx2)" by (cases p)
    from ps Inr p have e2: "extends ripup_weak ctx ctx2" and c2: "consistent ctx2"
      by (simp_all add: pass_ctx_def pass_consistent_def)
    from Suc.IH [OF c2, of "Suc pass" t] e2 Inr p show ?thesis
      by (subst (1 2) place_loop_unfold) (auto intro: extends_trans)
  qed
qed

lemma valid_loc_for_solution:
  assumes "valid_loc_for a ctx (Chain c children) loc solution used = Inr (ok, sol', used')"
  shows "sol' = solution \<or>
         (\<exists>success s1 u1. children_valid a ctx loc children solution (insert loc used) = Inr (success, s1, u1)
            \<and> (sol' = s1 \<or> sol' = AList.update c loc s1))"
  using assms
  by (subst (asm) valid_loc_for.simps)
     (auto split: option.splits if_splits sum.splits prod.splits)

lemma children_valid_solution:
  assumes "children_valid a ctx loc (child # rest) solution used = Inr (ok, sol', used')"
  shows "\<exists>locs success s1 u1. child_valid a ctx child locs solution used = Inr (success, s1, u1)
            \<and> (sol' = s1 \<or> children_valid a ctx loc rest s1 u1 = Inr (ok, sol', used'))"
  using assms
  by (subst (asm) children_valid.simps)
     (auto split: option.splits if_splits sum.splits prod.splits chain.splits)

lemma child_valid_solution:
  assumes "child_valid a ctx child (cloc # others) solution used = Inr (ok, sol', used')"
  shows "child_valid a ctx child others solution used = Inr (ok, sol', used') \<or>
         (\<exists>success s1 u1. valid_loc_for a ctx child cloc solution used = Inr (success, s1, u1)
            \<and> (sol' = s1 \<or> child_valid a ctx child others s1 u1 = Inr (ok, sol', used')))"
  using assms
  by (subst (asm) child_valid.simps)
     (auto split: option.splits if_splits sum.splits prod.splits)

lemma valid_loc_for_distinct:
  "distinct (map fst solution) \<Longrightarrow> valid_loc_for a ctx ch loc solution used = Inr (ok, sol', used')
     \<Longrightarrow> distinct (map fst sol')"
proof (induction ch arbitrary: loc solution used ok sol' used')
  case (Chain c children)
  have child: "distinct (map fst sol2)"
    if "ch \<in> set children" "distinct (map fst sol1)"
       "child_valid a ctx ch locs sol1 u1 = Inr (ok2, sol2, u2)"
    for ch locs sol1 u1 ok2 sol2 u2
    using that(2,3)
  proof (induction locs arbitrary: sol1 u1)
    case Nil
    then show ?case by (simp add: child_valid.simps)
  next
    case (Cons cloc others)
    from child_valid_solution [OF Cons.prems(2)] show ?case
    proof (elim disjE exE conjE)
      assume "child_valid a ctx ch others sol1 u1 = Inr (ok2, sol2, u2)"
      with Cons.IH Cons.prems(1) show ?thesis by blast
    next
      fix success s1 u1'
      assume v: "valid_loc_for a ctx ch cloc sol1 u1 = Inr (success, s1, u1')" and "sol2 = s1"
      with Chain.IH [OF that(1) Cons.prems(1) v] show ?thesis by simp
    next
      fix success s1 u1'
      assume v: "valid_loc_for a ctx ch cloc sol1 u1 = Inr (success, s1, u1')"
        and r: "child_valid a ctx ch others s1 u1' = Inr (ok2, sol2, u2)"
      from Chain.IH [OF that(1) Cons.prems(1) v] have "distinct (map fst s1)" .
      with Cons.IH r show ?thesis by blast
    qed
  qed
  have children: "distinct (map fst sol2)"
    if "set chs \<subseteq> set children" "distinct (map fst sol1)"
       "children_valid a ctx loc chs sol1 u1 = Inr (ok2, sol2, u2)"
    for chs sol1 u1 ok2 sol2 u2
    using that
  proof (induction chs arbitrary: sol1 u1)
    case Nil
    then show ?case by (simp add: children_valid.simps)
  next
    case (Cons ch rest)
    from children_valid_solution [OF Cons.prems(3)] obtain locs success s1 u1'
      where cv: "child_valid a ctx ch locs sol1 u1 = Inr (success, s1, u1')"
        and alt: "sol2 = s1 \<or> children_valid a ctx loc rest s1 u1' = Inr (ok2, sol2, u2)"
      by blast
    from Cons.prems(1) have "ch \<in> set children" by simp
    from child [OF this Cons.prems(2) cv] have d1: "distinct (map fst s1)" .
    from alt show ?case
    proof
      assume "sol2 = s1"
      with d1 show ?thesis by simp
    next
      assume "children_valid a ctx loc rest s1 u1' = Inr (ok2, sol2, u2)"
      with Cons.IH d1 Cons.prems(1) show ?thesis by simp
    qed
  qed
  from valid_loc_for_solution [OF Chain.prems(2)] show ?case
  proof (elim disjE exE conjE)
    assume "sol' = solution"
    with Chain.prems(1) show ?thesis by simp
  next
    fix success s1 u1
    assume "children_valid a ctx loc children solution (insert loc used) = Inr (success, s1, u1)"
      and "sol' = s1"
    with children [OF subset_refl Chain.prems(1)] show ?thesis by simp
  next
    fix success s1 u1
    assume "children_valid a ctx loc children solution (insert loc used) = Inr (success, s1, u1)"
      and "sol' = AList.update c loc s1"
    with children [OF subset_refl Chain.prems(1)] show ?thesis by (simp add: distinct_update)
  qed
qed

lemma same_binding_refl [simp]: "same_binding ctx ctx"
  by (simp add: same_binding_def)

lemma same_binding_trans: "same_binding ctx ctx1 \<Longrightarrow> same_binding ctx1 ctx2 \<Longrightarrow> same_binding ctx ctx2"
  by (simp add: same_binding_def)

lemma same_binding_set_strength: "same_binding ctx (set_cell_strength c s ctx)"
  by (auto simp: same_binding_def set_cell_strength_def cell_bel_def map_of_map_entry split: option.splits)

lemma same_binding_fold:
  "(\<And>x c. x \<in> set xs \<Longrightarrow> same_binding c (f x c)) \<Longrightarrow> same_binding ctx (fold f xs ctx)"
proof (induction xs arbitrary: ctx)
  case Nil
  show ?case by simp
next
  case (Cons x xs)
  have "same_binding ctx (f x ctx)" by (rule Cons.prems) simp
  moreover have "same_binding (f x ctx) (fold f xs (f x ctx))"
    by (rule Cons.IH) (simp add: Cons.prems)
  ultimately show ?case by (simp add: same_binding_trans)
qed

lemma same_binding_lockdown: "same_binding ctx (lockdown_chain ch ctx)"
proof (induction ch arbitrary: ctx)
  case (Chain c children)
  have "same_binding (set_cell_strength c STRENGTH_LOCKED ctx)
          (fold lockdown_chain children (set_cell_strength c STRENGTH_LOCKED ctx))"
    by (rule same_binding_fold) (rule Chain.IH)
  with same_binding_set_strength [of ctx c STRENGTH_LOCKED] show ?case
    by (simp add: same_binding_trans)
qed

lemma same_binding_consistent: "same_binding ctx ctx' \<Longrightarrow> consistent ctx \<Longrightarrow> consistent ctx'"
  by (simp add: same_binding_def consistent_def)

lemma same_binding_extends: "same_binding ctx ctx' \<Longrightarrow> extends Q ctx ctx'"
  by (simp add: same_binding_def extends_def)

lemma unbind_solution_err:
  "consistent ctx \<Longrightarrow> unbind_solution sol ctx = Inl (e, x) \<Longrightarrow> extends ripup_weak ctx x"
proof (induction sol arbitrary: ctx)
  case Nil
  then show ?case by simp
next
  case (Cons cp cps)
  show ?case
  proof (cases "map_of (cells ctx) (fst cp)")
    case None
    with Cons.prems(2) show ?thesis by simp
  next
    case (Some ci)
    note ci = Some
    show ?thesis
    proof (cases "bel ci")
      case None
      with ci Cons.prems show ?thesis by (auto intro: Cons.IH)
    next
      case (Some b)
      from ci Some have cb: "cell_bel ctx (fst cp) = Some b" by (simp add: cell_bel_def)
      note own = extends_own_unbind [OF Cons.prems(1) cb]
      show ?thesis
      proof (cases "unbindBel (Some (fst cp)) b ctx")
        case (Inl e')
        obtain er y where e': "e' = (er, y)" by (cases e')
        with Inl ci Some Cons.prems(2) have "y = x" by simp
        with own Inl e' show ?thesis by simp
      next
        case (Inr u)
        with own have eu: "extends ripup_weak ctx u" by simp
        from Inr ci Some Cons.prems(2) have "unbind_solution cps u = Inl (e, x)" by simp
        from Cons.IH [OF consistent_unbindBel [OF Cons.prems(1) Inr] this] eu show ?thesis
          by (auto intro: extends_trans)
      qed
    qed
  qed
qed

lemma unbind_solution_ok:
  assumes "unbind_solution sol ctx = Inr ctx'" and "consistent ctx" and "\<forall>c\<in>N. not_bound c ctx"
  shows "extends ripup_weak ctx ctx' \<and> consistent ctx' \<and> (\<forall>c\<in>N \<union> fst ` set sol. not_bound c ctx')"
  using assms
proof (induction sol arbitrary: ctx N)
  case Nil
  then show ?case by simp
next
  case (Cons cp cps)
  from Cons.prems(1) obtain ci where ci: "map_of (cells ctx) (fst cp) = Some ci"
    by (auto split: option.splits)
  show ?case
  proof (cases "bel ci")
    case None
    with ci Cons.prems(1) have r: "unbind_solution cps ctx = Inr ctx'" by simp
    from ci None have "cell_bel ctx (fst cp) = None" by (simp add: cell_bel_def)
    with Cons.prems(2) have "not_bound (fst cp) ctx" by (rule not_bound_unplaced)
    with Cons.prems(3) have "\<forall>c\<in>insert (fst cp) N. not_bound c ctx" by simp
    from Cons.IH [OF r Cons.prems(2) this] show ?thesis by auto
  next
    case (Some b)
    from ci Some Cons.prems(1) obtain u where
      ub: "unbindBel (Some (fst cp)) b ctx = Inr u" and r: "unbind_solution cps u = Inr ctx'"
      by (auto split: sum.splits)
    from unbindBel_Inr [OF ub] have u: "u = unbound (Some (fst cp)) b ctx" .
    from ci Some have cb: "cell_bel ctx (fst cp) = Some b" by (simp add: cell_bel_def)
    with Cons.prems(2) have "not_bound (fst cp) u" unfolding u by (rule not_bound_after_unbind)
    with Cons.prems(3) have nb: "\<forall>c\<in>insert (fst cp) N. not_bound c u"
      by (simp add: u not_bound_unbound)
    have cu: "consistent u" by (rule consistent_unbindBel [OF Cons.prems(2) ub])
    from extends_own_unbind [OF Cons.prems(2) cb] ub have "extends ripup_weak ctx u" by simp
    with Cons.IH [OF r cu nb] show ?thesis
      by (auto intro: extends_trans)
  qed
qed

lemma bind_solution_safe:
  assumes "consistent ctx" and "distinct (map fst sol)" and "\<forall>c\<in>fst ` set sol. not_bound c ctx"
  shows "extends ripup_weak ctx (final_ctx (bind_solution a sol ripped ctx))
         \<and> result_consistent (bind_solution a sol ripped ctx)"
  using assms
proof (induction sol arbitrary: ripped ctx)
  case Nil
  then show ?case by (simp add: result_consistent_def)
next
  case (Cons cp cps)
  show ?case
  proof (cases "getBelByLocation a (snd cp)")
    case None
    then show ?thesis by (simp add: result_consistent_def)
  next
    case (Some target)
    let ?inner = "(if \<not> checkBelAvail ctx target then
                  (case getConflictingBelCell ctx target of
                     None \<Rightarrow> Inr (ripped, ctx)
                   | Some conflicting \<Rightarrow>
                      (case map_of (cells ctx) conflicting of
                         None \<Rightarrow> Inl (OutOfRange, ctx)
                       | Some confl_cell \<Rightarrow>
                          if \<not> strength_val (belStrength confl_cell) < strength_val STRENGTH_STRONG
                          then Inl (AssertionFailed, ctx)
                          else
                            (case unbindBel None target ctx of
                               Inl e \<Rightarrow> Inl e
                             | Inr ctxu \<Rightarrow> Inr (ripped @ [conflicting], ctxu))))
                else Inr (ripped, ctx)) :: (IdString list \<times> Context) result"
    have unf: "bind_solution a (cp # cps) ripped ctx =
       (case ?inner of
          Inl e \<Rightarrow> Inl e
        | Inr (rippedCells1, ctx1) \<Rightarrow>
           (case bindBel target (fst cp) STRENGTH_LOCKED ctx1 of
              Inl e \<Rightarrow> Inl e
            | Inr ctx2 \<Rightarrow> bind_solution a cps rippedCells1 ctx2))"
      using Some by simp
    have inner: "extends ripup_weak ctx (final_ctx ?inner) \<and>
       (\<forall>r1 ctx1. ?inner = Inr (r1, ctx1) \<longrightarrow>
           consistent ctx1 \<and> (\<forall>c\<in>fst ` set (cp # cps). not_bound c ctx1))"
      using Cons.prems(1,3)
      by (auto simp: getConflictingBelCell_def cell_strength_lookup consistent_unbound
               not_bound_unbound unbindBel_below_strong
               split: option.splits intro!: extends_ripup_unbind)
    show ?thesis
    proof (cases ?inner)
      case (Inl e)
      obtain er x where e: "e = (er, x)" by (cases e)
      from inner Inl e show ?thesis
        by (simp only: unf Inl) (simp add: result_consistent_def)
    next
      case (Inr p)
      obtain r1 ctx1 where p: "p = (r1, ctx1)" by (cases p)
      from inner Inr p have e1: "extends ripup_weak ctx ctx1" and c1: "consistent ctx1"
        and nb1: "\<forall>c\<in>fst ` set (cp # cps). not_bound c ctx1"
        by simp_all
      show ?thesis
      proof (cases "bindBel target (fst cp) STRENGTH_LOCKED ctx1")
        case (Inl e)
        obtain er x where e: "e = (er, x)" by (cases e)
        with Inl have "x = ctx1" by (auto dest: trace_bindBel_err)
        with e1 Inl e \<open>?inner = Inr p\<close> p show ?thesis
          by (simp only: unf) (simp add: result_consistent_def)
      next
        case (Inr ctx2)
        from nb1 have "not_bound (fst cp) ctx1" by simp
        from consistent_bindBel [OF c1 this Inr] have c2: "consistent ctx2" .
        from Cons.prems(2) have d: "distinct (map fst cps)" and ne: "\<forall>c\<in>fst ` set cps. c \<noteq> fst cp"
          by (auto simp: image_iff)
        have nb2: "\<forall>c\<in>fst ` set cps. not_bound c ctx2"
        proof
          fix c assume c: "c \<in> fst ` set cps"
          with nb1 have "not_bound c ctx1" by auto
          moreover from c ne have "c \<noteq> fst cp" by auto
          ultimately show "not_bound c ctx2" using Inr by (rule not_bound_bindBel)
        qed
        from e1 have e2: "extends ripup_weak ctx ctx2" by (simp add: extends_bindBel [OF Inr])
        from Cons.IH [OF c2 d nb2, of r1] e2 \<open>?inner = Inr p\<close> p Inr show ?thesis
          by (simp only: unf) (auto intro: extends_trans)
      qed
    qed
  qed
qed

lemma legalise_root_safe:
  assumes "consistent ctx"
  shows "extends ripup_weak ctx (final_ctx (legalise_root a ch locs ripped ctx))
         \<and> result_consistent (legalise_root a ch locs ripped ctx)"
proof (induction locs)
  case Nil
  from assms show ?case by (simp add: result_consistent_def)
next
  case (Cons rootLoc others)
  show ?case
  proof (cases "valid_loc_for a ctx ch rootLoc [] {}")
    case (Inl e)
    then show ?thesis by (simp add: result_consistent_def)
  next
    case (Inr p)
    obtain ok solution used where p: "p = (ok, solution, used)" by (cases p)
    show ?thesis
    proof (cases ok)
      case False
      with Inr p Cons.IH show ?thesis by simp
    next
      case True
      from Inr p have v: "valid_loc_for a ctx ch rootLoc [] {} = Inr (ok, solution, used)" by simp
      have d: "distinct (map fst solution)"
        by (rule valid_loc_for_distinct [OF _ v]) simp
      show ?thesis
      proof (cases "unbind_solution solution ctx")
        case (Inl e)
        obtain er x where e: "e = (er, x)" by (cases e)
        with Inl assms have "extends ripup_weak ctx x" by (auto dest: unbind_solution_err)
        with v True Inl e show ?thesis by (simp add: result_consistent_def)
      next
        case (Inr ctx1)
        from unbind_solution_ok [OF Inr assms, of "{}"]
        have e1: "extends ripup_weak ctx ctx1" and c1: "consistent ctx1"
          and nb: "\<forall>c\<in>fst ` set solution. not_bound c ctx1" by simp_all
        note bs = bind_solution_safe [OF c1 d nb, of a ripped]
        show ?thesis
        proof (cases "bind_solution a solution ripped ctx1")
          case (Inl e)
          obtain er x where e: "e = (er, x)" by (cases e)
          with bs Inl e1 have "extends ripup_weak ctx x" by (auto intro: extends_trans)
          with v True \<open>unbind_solution solution ctx = Inr ctx1\<close> Inl e show ?thesis
            by (simp add: result_consistent_def)
        next
          case (Inr q)
          obtain r2 ctx2 where q: "q = (r2, ctx2)" by (cases q)
          with bs Inr e1 have "extends ripup_weak ctx ctx2" "consistent ctx2"
            by (auto simp: result_consistent_def intro: extends_trans)
          with v True \<open>unbind_solution solution ctx = Inr ctx1\<close> Inr q show ?thesis
            by (simp add: result_consistent_def)
        qed
      qed
    qed
  qed
qed

lemma legalise_cell_safe:
  assumes "consistent ctx"
  shows "extends ripup_weak ctx (final_ctx (legalise_cell a old c ripped ctx))
         \<and> result_consistent (legalise_cell a old c ripped ctx)"
proof -
  have lock: "\<And>ch. extends ripup_weak ctx (lockdown_chain ch ctx) \<and> consistent (lockdown_chain ch ctx)"
    using assms same_binding_lockdown
    by (blast intro: same_binding_extends same_binding_consistent)
  show ?thesis
    unfolding legalise_cell_def
    using assms lock legalise_root_safe [OF assms]
    by (auto simp: result_consistent_def simp del: lockdown_chain.simps split: option.splits)
qed

lemma legalise_cells_safe:
  "consistent ctx \<Longrightarrow>
   extends ripup_weak ctx (final_ctx (legalise_cells a old cs ripped ctx))
   \<and> result_consistent (legalise_cells a old cs ripped ctx)"
proof (induction cs arbitrary: ripped ctx)
  case Nil
  then show ?case by (simp add: result_consistent_def)
next
  case (Cons c cs)
  note lc = legalise_cell_safe [OF Cons.prems, of a old c ripped]
  show ?case
  proof (cases "legalise_cell a old c ripped ctx")
    case (Inl e)
    obtain er x where e: "e = (er, x)" by (cases e)
    with lc Inl show ?thesis by (simp add: result_consistent_def)
  next
    case (Inr p)
    obtain res r1 ctx1 where p: "p = ((res, r1), ctx1)" by (cases p) auto
    from lc Inr p have e1: "extends ripup_weak ctx ctx1" and c1: "consistent ctx1"
      by (simp_all add: result_consistent_def)
    from Cons.IH [OF c1, of r1] e1 Inr p show ?thesis
      by (auto simp: result_consistent_def intro: extends_trans)
  qed
qed

lemma place_single_cell_safe:
  "consistent ctx \<Longrightarrow>
   extends ripup_weak ctx (final_ctx (place_single_cell a ctx c rl))
   \<and> result_consistent (place_single_cell a ctx c rl)"
  unfolding place_single_cell_def by (rule place_loop_safe)

lemma place_ripped_safe:
  "consistent ctx \<Longrightarrow>
   extends ripup_weak ctx (final_ctx (place_ripped a cs ctx))
   \<and> result_consistent (place_ripped a cs ctx)"
proof (induction cs arbitrary: ctx)
  case Nil
  then show ?case by (simp add: result_consistent_def)
next
  case (Cons c cs)
  note ps = place_single_cell_safe [OF Cons.prems, of a c "bool_of_strength STRENGTH_WEAK"]
  show ?case
  proof (cases "place_single_cell a ctx c (bool_of_strength STRENGTH_WEAK)")
    case (Inl e)
    obtain er x where e: "e = (er, x)" by (cases e)
    with ps Inl show ?thesis by (simp add: result_consistent_def)
  next
    case (Inr p)
    obtain res ctx1 where p: "p = (res, ctx1)" by (cases p)
    from ps Inr p have e1: "extends ripup_weak ctx ctx1" and c1: "consistent ctx1"
      by (simp_all add: result_consistent_def)
    from Cons.IH [OF c1] e1 Inr p show ?thesis
      by (auto simp: result_consistent_def intro: extends_trans)
  qed
qed

lemma legalise_constraints_safe:
  assumes "consistent ctx"
  shows "extends ripup_weak ctx (final_ctx (legalise_constraints a ctx))"
proof (cases "snapshot_locations a ctx (sorted_cells ctx) []")
  case (Inl e)
  then show ?thesis by (simp add: legalise_constraints_def)
next
  case (Inr old)
  note lc = legalise_cells_safe [OF assms, of a old "sorted_cells ctx" "[]"]
  show ?thesis
  proof (cases "legalise_cells a old (sorted_cells ctx) [] ctx")
    case (Inl e)
    obtain er x where e: "e = (er, x)" by (cases e)
    with lc Inl \<open>snapshot_locations a ctx (sorted_cells ctx) [] = Inr old\<close> show ?thesis
      by (simp add: legalise_constraints_def)
  next
    case (Inr p)
    obtain r1 ctx1 where p: "p = (r1, ctx1)" by (cases p)
    from lc Inr p have e1: "extends ripup_weak ctx ctx1" and c1: "consistent ctx1"
      by (simp_all add: result_consistent_def)
    from place_ripped_safe [OF c1, of a r1] e1 Inr p
      \<open>snapshot_locations a ctx (sorted_cells ctx) [] = Inr old\<close> show ?thesis
      by (auto simp: legalise_constraints_def intro: extends_trans)
  qed
qed

text \<open>
  The two selections behind the invariant. The scan of \<^verbatim>\<open>place_single_cell\<close> ends with
  a victim that sits on the ripup bel and is weaker than STRONG, and \<^verbatim>\<open>valid_loc_for\<close>
  rejects a location whose bel holds a cell of strength STRONG or more.
\<close>

lemma scan_victim_below_strong:
  assumes "consistent ctx" and "place_scan a rl iters pass c ctx = Inr (sc, ctx1)"
    and "ripup_bel sc = Some rb"
  shows "\<exists>t. ripup_target sc = Some t \<and> bel_to_cell ctx1 rb = Some t
             \<and> strength_val (cell_strength ctx1 t) < strength_val STRENGTH_STRONG"
  using place_scan_victim [OF assms(2,1)] assms(3) by (simp add: victim_ok_def)

lemma valid_loc_for_rejects_strong:
  assumes "getBelByLocation a loc = Some locBel"
    and "bel_to_cell ctx locBel = Some confCell"
    and "strength_val (cell_strength ctx confCell) \<ge> strength_val STRENGTH_STRONG"
    and "consistent ctx"
  shows "valid_loc_for a ctx (Chain c children) loc solution used = Inl BadPointer
         \<or> valid_loc_for a ctx (Chain c children) loc solution used = Inr (False, solution, used)"
proof -
  from assms(2,4) have "cell_bel ctx confCell = Some locBel" by (simp add: consistent_def)
  then obtain cci where "map_of (cells ctx) confCell = Some cci"
    by (auto simp: cell_bel_def split: option.splits)
  with assms(1,2,3) show ?thesis
    by (subst (1 2) valid_loc_for.simps)
       (auto simp: checkBelAvail_def getConflictingBelCell_def cell_strength_lookup split: option.splits)
qed

text \<open>
  C5. From a context in which the placement map and the cells agree, every cell that
  \<^verbatim>\<open>place_single_cell\<close> or the legaliser unbinds, other than the cell it is moving at
  that moment, has a strength below STRONG when it is unbound: the scan of
  \<^verbatim>\<open>place_single_cell\<close> takes a victim only if its strength is below STRONG, and the
  legaliser unbinds an incumbent only after the assertion on its strength, which
  \<^verbatim>\<open>valid_loc_for\<close> has checked before. This holds for runs that return and for runs
  that end in a fatal error.
\<close>

theorem ripup_only_below_strong:
  "consistent ctx \<Longrightarrow>
   list_all ripup_weak (new_events ctx (final_ctx (place_single_cell a ctx c require_legality)))
   \<and> list_all ripup_weak (new_events ctx (final_ctx (legalise_relative_constraints a ctx)))"
  by (simp add: legalise_relative_constraints_def extends_new_events place_single_cell_safe
        legalise_constraints_safe)

lemma consistent_chains: "consistent ctx_chains"
  by (auto simp: consistent_def ctx_chains_def cell_bel_def free_cell_def split: if_splits)

theorem ripup_only_below_strong_witness:
  "consistent ctx_chains
   \<and> list_all ripup_weak (new_events ctx_chains
        (final_ctx (place_single_cell (line_arch 4 (\<lambda>c b. True)) ctx_chains 0 True)))
   \<and> list_all ripup_weak (new_events ctx_chains
        (final_ctx (legalise_relative_constraints (line_arch 4 (\<lambda>c b. True)) ctx_chains)))
   \<and> EvUnbind Ripup 1 STRENGTH_WEAK \<in> set (new_events ctx_chains
        (final_ctx (legalise_relative_constraints (line_arch 4 (\<lambda>c b. True)) ctx_chains)))"
proof -
  have "EvUnbind Ripup 1 STRENGTH_WEAK \<in> set (new_events ctx_chains
        (final_ctx (legalise_relative_constraints (line_arch 4 (\<lambda>c b. True)) ctx_chains)))"
    using chains_run by (simp add: new_events_def ctx_chains_def)
  with consistent_chains
    ripup_only_below_strong [OF consistent_chains, of "line_arch 4 (\<lambda>c b. True)" 0 True]
  show ?thesis by simp
qed

subsection \<open>\<^verbatim>\<open>place_single_cell\<close> on a cell that is not LOCKED\<close>

lemma candidate_unlocked: "candidate_event iters pass e \<Longrightarrow> unlocked_event e"
  by (auto simp: candidate_event_def unlocked_event_def split: event.splits)

lemma cell_bel_log_event [simp]: "cell_bel (log_event e ctx) c = cell_bel ctx c"
  by (simp add: cell_bel_def log_event_def)

lemma cell_strength_log_event [simp]: "cell_strength (log_event e ctx) c = cell_strength ctx c"
  by (simp add: cell_strength_def log_event_def)

lemma place_scan_unlocked:
  assumes "consistent ctx"
    and "cell_bel ctx c = None \<or> cell_strength ctx c \<noteq> STRENGTH_LOCKED"
  shows "extends unlocked_event ctx (final_ctx (place_scan a rl iters pass c ctx))"
proof (cases "map_of (cells ctx) c")
  case None
  then show ?thesis by (simp add: place_scan_def)
next
  case (Some ci)
  have own: "extends unlocked_event ctx (ctx_of (unbind_own c ctx))"
  proof (cases "cell_bel ctx c")
    case None
    then show ?thesis by (simp add: unbind_own_def)
  next
    case (Some b)
    with assms have "bel_to_cell ctx b = Some c" "cell_strength ctx c \<noteq> STRENGTH_LOCKED"
      by (simp_all add: consistent_def)
    with Some show ?thesis
      by (simp add: unbind_own_def extends_def unbindBel_def log_event_def Let_def unlocked_event_def)
  qed
  have sc: "\<And>tt x. extends unlocked_event x
        (final_ctx (scan_bels a rl iters pass c tt (getBels a) (scan_init a) x))"
    by (rule extends_mono [OF scan_bels_extends candidate_unlocked])
  show ?thesis
  proof (cases "unbind_own c ctx")
    case (Inl e)
    obtain er x where "e = (er, x)" by (cases e)
    with own Inl Some show ?thesis by (simp add: place_scan_def)
  next
    case (Inr ctx1)
    with own have "extends unlocked_event ctx ctx1" by simp
    from extends_trans [OF this sc] Inr Some show ?thesis
      by (simp add: place_scan_def Let_def)
  qed
qed

lemma strength_below_strong_unlocked:
  "strength_val s < strength_val STRENGTH_STRONG \<Longrightarrow> s \<noteq> STRENGTH_LOCKED"
  by auto

lemma place_pass_unlocked:
  assumes con: "consistent ctx"
    and pre: "cell_bel ctx c = None \<or> cell_strength ctx c \<noteq> STRENGTH_LOCKED"
  shows "extends unlocked_event ctx (pass_ctx (place_pass a rl iters pass c ctx))
         \<and> (\<forall>t ctx2. place_pass a rl iters pass c ctx = Inr (t, ctx2) \<longrightarrow> cell_bel ctx2 t = None)"
proof -
  let ?ctx0 = "log_event (EvPass pass) ctx"
  have e0: "extends unlocked_event ctx ?ctx0"
    by (rule extends_log) (simp add: unlocked_event_def)
  have "extends unlocked_event ?ctx0 (final_ctx (place_scan a rl iters pass c ?ctx0))"
    by (rule place_scan_unlocked) (simp_all add: con pre)
  with e0 have e1: "extends unlocked_event ctx (final_ctx (place_scan a rl iters pass c ?ctx0))"
    by (rule extends_trans)
  show ?thesis
  proof (cases "place_scan a rl iters pass c ?ctx0")
    case (Inl e)
    obtain er x where "e = (er, x)" by (cases e)
    with Inl e1 show ?thesis
      by (simp add: place_pass_def pass_ctx_def)
  next
    case (Inr p)
    obtain sc ctx1 where p: "p = (sc, ctx1)" by (cases p)
    from Inr p have scan: "place_scan a rl iters pass c ?ctx0 = Inr (sc, ctx1)" by simp
    from e1 scan have ex1: "extends unlocked_event ctx ctx1" by simp
    from place_scan_victim [OF scan] con
    have c1: "consistent ctx1" and nb: "not_bound c ctx1" and vic: "victim_ok ctx1 sc" by simp_all
    show ?thesis
    proof (cases "best_bel sc")
      case (Some bb)
      show ?thesis
      proof (cases "bindBel bb c STRENGTH_WEAK ctx1")
        case (Inl e)
        then obtain er x where e: "e = (er, x)" by (cases e)
        with Inl have "x = ctx1" by (auto dest: trace_bindBel_err)
        with scan Some Inl e ex1 show ?thesis
          by (simp add: place_pass_def pass_ctx_def)
      next
        case (Inr ctx2)
        from ex1 have "extends unlocked_event ctx ctx2" by (simp add: extends_bindBel [OF Inr])
        then show ?thesis using scan Some Inr
          by (simp add: place_pass_def pass_ctx_def)
      qed
    next
      case None
      note nobest = None
      show ?thesis
      proof (cases "iters = 0")
        case True
        with scan nobest ex1 show ?thesis
          by (simp add: place_pass_def pass_ctx_def)
      next
        case False
        note it = False
        show ?thesis
        proof (cases "ripup_bel sc")
          case None
          with scan nobest it ex1 show ?thesis
            by (simp add: place_pass_def pass_ctx_def)
        next
          case (Some rb)
          with vic obtain t where t: "ripup_target sc = Some t" "bel_to_cell ctx1 rb = Some t"
            "strength_val (cell_strength ctx1 t) < strength_val STRENGTH_STRONG"
            by (auto simp: victim_ok_def)
          from c1 t(2) have tb: "cell_bel ctx1 t = Some rb" by (simp add: consistent_def)
          from nb t(2) have tc: "t \<noteq> c" by (auto simp: not_bound_def)
          let ?ctxu = "unbound None rb ctx1"
          have ub: "unbindBel None rb ctx1 = Inr ?ctxu"
            by (rule unbindBel_below_strong [OF t(2) t(3)])
          have "extends unlocked_event ctx1 ?ctxu"
            using t(2) strength_below_strong_unlocked [OF t(3)]
            by (simp add: extends_def unbound_def unlocked_event_def)
          with ex1 have exu: "extends unlocked_event ctx ?ctxu" by (rule extends_trans)
          have tu: "cell_bel ?ctxu t = None" using t(2) by (simp add: cell_bel_unbound)
          show ?thesis
          proof (cases "bindBel rb c STRENGTH_WEAK ?ctxu")
            case (Inl e)
            then obtain er x where e: "e = (er, x)" by (cases e)
            with Inl have "x = ?ctxu" by (auto dest: trace_bindBel_err)
            with scan nobest it Some t(1) tb ub Inl e exu show ?thesis
              by (simp add: place_pass_def pass_ctx_def)
          next
            case (Inr ctx2)
            from exu have "extends unlocked_event ctx ctx2" by (simp add: extends_bindBel [OF Inr])
            moreover from tu tc have "cell_bel ctx2 t = None"
              by (simp add: cell_bel_bindBel [OF Inr])
            ultimately show ?thesis using scan nobest it Some t(1) tb ub Inr
              by (simp add: place_pass_def pass_ctx_def)
          qed
        qed
      qed
    qed
  qed
qed

lemma place_loop_unlocked:
  "consistent ctx \<Longrightarrow> cell_bel ctx c = None \<or> cell_strength ctx c \<noteq> STRENGTH_LOCKED \<Longrightarrow>
   extends unlocked_event ctx (final_ctx (place_loop a rl iters pass c ctx))"
proof (induction iters arbitrary: pass c ctx)
  case 0
  from place_pass_unlocked [OF 0, of a rl 0 pass] show ?case
    by (subst place_loop_unfold)
       (auto simp: pass_ctx_def split: sum.splits prod.splits dest: place_pass_again)
next
  case (Suc n)
  note pu = place_pass_unlocked [OF Suc.prems, of a rl "Suc n" pass]
  note ps = place_pass_safe [OF Suc.prems(1), of a rl "Suc n" pass c]
  show ?case
  proof (cases "place_pass a rl (Suc n) pass c ctx")
    case (Inl r)
    with pu show ?thesis
      by (subst place_loop_unfold) (simp add: pass_ctx_def)
  next
    case (Inr p)
    obtain t ctx2 where p: "p = (t, ctx2)" by (cases p)
    from pu Inr p have e2: "extends unlocked_event ctx ctx2" and u2: "cell_bel ctx2 t = None"
      by (simp_all add: pass_ctx_def)
    from ps Inr p have c2: "consistent ctx2" by (simp add: pass_consistent_def)
    from Suc.IH [OF c2, of t "Suc pass"] u2 e2 Inr p show ?thesis
      by (subst place_loop_unfold) (auto intro: extends_trans)
  qed
qed

text \<open>
  Called on a cell that is unplaced or not LOCKED, from a context in which the placement
  map and the cells agree, \<^verbatim>\<open>place_single_cell\<close> unbinds no cell of strength LOCKED.
  The call at line 420 is outside this: the legaliser may have bound the ripped cell with
  strength LOCKED in the meantime.
\<close>

lemma place_single_cell_spares_locked:
  assumes "consistent ctx"
    and "cell_bel ctx c = None \<or> cell_strength ctx c \<noteq> STRENGTH_LOCKED"
  shows "list_all unlocked_event
           (new_events ctx (final_ctx (place_single_cell a ctx c require_legality)))"
  unfolding place_single_cell_def
  by (rule extends_new_events [OF place_loop_unlocked [OF assms]])

end
